theory Spec2Isabelle
  imports Complex_Main "HOL-Library.Word"
begin

section \<open>The model\<close>

subsection \<open>Preloading: \<open>Application.prototype.preload\<close>\<close>

text \<open>
  JavaScript truthiness of an error argument: \<open>null\<close>/\<open>undefined\<close> (\<open>None\<close>) and the
  empty string are falsy, every other string is truthy.
\<close>

definition truthy :: "string option \<Rightarrow> bool" where
  "truthy e = (case e of None \<Rightarrow> False | Some m \<Rightarrow> m \<noteq> [])"

text \<open>The mini-object \<open>Progress\<close> declared inside \<open>preload\<close>.\<close>

record progress =
  p_length :: nat
  p_count :: nat

definition Progress :: "nat \<Rightarrow> progress" where
  "Progress n = \<lparr>p_length = n, p_count = 0\<rparr>"

definition inc_p :: "progress \<Rightarrow> progress" where
  "inc_p p = p\<lparr>p_count := p_count p + 1\<rparr>"

definition progress_done :: "progress \<Rightarrow> bool" where
  "progress_done p = (p_count p = p_length p)"

text \<open>An asset of the preload list; only its \<open>loaded\<close> flag is read by \<open>preload\<close>.\<close>

record asset =
  asset_name :: string
  loaded :: bool

text \<open>
  What an observer of \<open>preload\<close> sees: the \<open>preload:progress\<close> event with its fraction,
  the console output of the script callback, and the invocation of the caller's callback.
  \<open>Callback args p\<close> records the arguments passed to the callback and the value that
  \<open>systems.script.preloading\<close> has when the callback runs.
\<close>

datatype notice =
    PreloadProgress real
  | ConsoleError string
  | ConsoleLog nat
  | Callback "string list" bool

fun is_callback :: "notice \<Rightarrow> bool" where
  "is_callback (Callback _ _) = True"
| "is_callback _ = False"

fun is_progress :: "notice \<Rightarrow> bool" where
  "is_progress (PreloadProgress _) = True"
| "is_progress _ = False"

text \<open>
  The variables captured by the closures of \<open>preload\<close>, the \<open>once\<close> handlers still
  registered on the assets (by index in the preload list), the script requests issued to
  the loader, and the notices produced so far.
\<close>

record pstate =
  assets_p :: progress
  scripts_p :: progress
  done_flag :: bool
  preloading :: bool
  load_once :: "nat set"
  error_once :: "nat set"
  script_requests :: "nat set"
  notices :: "notice list"

definition total_n :: "pstate \<Rightarrow> nat" where
  "total_n s = p_length (assets_p s) + p_length (scripts_p s)"

definition count_n :: "pstate \<Rightarrow> nat" where
  "count_n s = p_count (assets_p s) + p_count (scripts_p s)"

text \<open>The closure \<open>done\<close>: the latch \<open>_done\<close> and both counters guard the callback.\<close>

definition preload_done :: "pstate \<Rightarrow> pstate" where
  "preload_done s =
     (if \<not> done_flag s \<and> progress_done (assets_p s) \<and> progress_done (scripts_p s) then
        (let s1 = s\<lparr>done_flag := True\<rparr>;
             s2 = s1\<lparr>preloading := False\<rparr>
         in s2\<lparr>notices := notices s2 @ [Callback [] (preloading s2)]\<rparr>)
      else s)"

text \<open>
  The body shared by the \<open>load\<close> handler, the \<open>error\<close> handler and the branch for an asset
  that is already loaded: increment, fire the progress event, check for completion.
\<close>

definition asset_settled :: "pstate \<Rightarrow> pstate" where
  "asset_settled s =
     (let s1 = s\<lparr>assets_p := inc_p (assets_p s)\<rparr>;
          s2 = s1\<lparr>notices := notices s1 @ [PreloadProgress (real (count_n s1) / real (total_n s1))]\<rparr>
      in if progress_done (assets_p s2) then preload_done s2 else s2)"

text \<open>
  The callback given to \<open>loader.load(url, "script", ...)\<close>: it writes the error or the
  script type to the console, increments and checks for completion. It fires no progress
  event.
\<close>

definition script_console :: "nat \<Rightarrow> string option \<Rightarrow> notice" where
  "script_console j err =
     (case err of None \<Rightarrow> ConsoleLog j
      | Some m \<Rightarrow> if truthy err then ConsoleError m else ConsoleLog j)"

definition script_settled :: "nat \<Rightarrow> string option \<Rightarrow> pstate \<Rightarrow> pstate" where
  "script_settled j err s =
     (let s1 = s\<lparr>notices := notices s @ [script_console j err]\<rparr>;
          s2 = s1\<lparr>scripts_p := inc_p (scripts_p s1)\<rparr>
      in if progress_done (scripts_p s2) then preload_done s2 else s2)"

text \<open>
  What the asset registry and the loader report back. A \<open>once\<close> handler runs only while it
  is registered and unregisters itself; the \<open>load\<close> and \<open>error\<close> handlers of one asset are
  two separate registrations. The script callback has no such guard.
\<close>

datatype event =
    AssetLoad nat
  | AssetError nat
  | ScriptLoaded nat "string option"

fun on_event :: "event \<Rightarrow> pstate \<Rightarrow> pstate" where
  "on_event (AssetLoad i) s =
     (if i \<in> load_once s then asset_settled (s\<lparr>load_once := load_once s - {i}\<rparr>) else s)"
| "on_event (AssetError i) s =
     (if i \<in> error_once s then asset_settled (s\<lparr>error_once := error_once s - {i}\<rparr>) else s)"
| "on_event (ScriptLoaded j err) s =
     (if j \<in> script_requests s then script_settled j err s else s)"

definition deliver :: "event list \<Rightarrow> pstate \<Rightarrow> pstate" where
  "deliver evs s = foldl (\<lambda>s e. on_event e s) s evs"

text \<open>
  What the host does with a batch. A resource that the loader has in its cache reports
  back before the call that asked for it returns, so events may arrive while
  \<open>this.assets.load(assets[i])\<close> runs and while the request for script \<open>j\<close> runs; the
  others arrive after \<open>preload\<close> has returned.
\<close>

record schedule =
  during_asset :: "nat \<Rightarrow> event list"
  during_script :: "nat \<Rightarrow> event list"
  afterwards :: "event list"

text \<open>The loop over the assets, \<open>i\<close> being the loop index.\<close>

fun assets_loop :: "schedule \<Rightarrow> asset list \<Rightarrow> nat \<Rightarrow> pstate \<Rightarrow> pstate" where
  "assets_loop h [] i s = s"
| "assets_loop h (a # as) i s =
     assets_loop h as (Suc i)
       (if \<not> loaded a then
          deliver (during_asset h i)
            (s\<lparr>load_once := insert i (load_once s), error_once := insert i (error_once s)\<rparr>)
        else asset_settled s)"

text \<open>The loop over the script urls: one request to the loader each.\<close>

fun scripts_loop :: "schedule \<Rightarrow> string list \<Rightarrow> nat \<Rightarrow> pstate \<Rightarrow> pstate" where
  "scripts_loop h [] i s = s"
| "scripts_loop h (u # us) i s =
     scripts_loop h us (Suc i)
       (deliver (during_script h i) (s\<lparr>script_requests := insert i (script_requests s)\<rparr>))"

text \<open>
  \<open>preload\<close> up to its return: \<open>assets\<close> is the result of \<open>this.assets.list({preload: true})\<close>,
  \<open>scripts\<close> is \<open>this._scripts\<close>.
\<close>

definition preload :: "schedule \<Rightarrow> asset list \<Rightarrow> string list \<Rightarrow> pstate" where
  "preload h assets scripts =
     (let s0 = \<lparr>assets_p = Progress (length assets), scripts_p = Progress (length scripts),
                done_flag = False, preloading = True, load_once = {}, error_once = {},
                script_requests = {}, notices = []\<rparr>;
          s1 = (if p_length (assets_p s0) \<noteq> 0 then assets_loop h assets 0 s0 else preload_done s0);
          s2 = (if p_length (scripts_p s1) \<noteq> 0 then scripts_loop h scripts 0 s1 else preload_done s1)
      in s2)"

text \<open>A whole batch: \<open>preload\<close> runs and returns, then the host delivers the remaining events.\<close>

definition run_preload :: "schedule \<Rightarrow> asset list \<Rightarrow> string list \<Rightarrow> pstate" where
  "run_preload h assets scripts = deliver (afterwards h) (preload h assets scripts)"

text \<open>The schedule in which every event arrives after \<open>preload\<close> has returned.\<close>

definition later :: "event list \<Rightarrow> schedule" where
  "later evs = \<lparr>during_asset = (\<lambda>i. []), during_script = (\<lambda>j. []), afterwards = evs\<rparr>"

definition callbacks :: "pstate \<Rightarrow> nat" where
  "callbacks s = length (filter is_callback (notices s))"

definition fractions :: "pstate \<Rightarrow> real list" where
  "fractions s = concat (map (\<lambda>n. case n of PreloadProgress f \<Rightarrow> [f] | _ \<Rightarrow> []) (notices s))"

text \<open>
  The items of a batch that are not settled by \<open>preload\<close> itself: the assets that are not
  loaded yet, and the scripts.
\<close>

datatype item = AssetItem nat | ScriptItem nat

fun item_of :: "event \<Rightarrow> item" where
  "item_of (AssetLoad i) = AssetItem i"
| "item_of (AssetError i) = AssetItem i"
| "item_of (ScriptLoaded j err) = ScriptItem j"

definition pending :: "asset list \<Rightarrow> string list \<Rightarrow> item list" where
  "pending assets scripts =
     map AssetItem (filter (\<lambda>i. \<not> loaded (assets ! i)) [0..<length assets]) @
     map ScriptItem [0..<length scripts]"

text \<open>All events of a schedule, in the order in which they are delivered.\<close>

fun asset_syncs :: "schedule \<Rightarrow> asset list \<Rightarrow> nat \<Rightarrow> event list" where
  "asset_syncs h [] i = []"
| "asset_syncs h (a # as) i =
     (if \<not> loaded a then during_asset h i else []) @ asset_syncs h as (Suc i)"

fun script_syncs :: "schedule \<Rightarrow> string list \<Rightarrow> nat \<Rightarrow> event list" where
  "script_syncs h [] j = []"
| "script_syncs h (u # us) j = during_script h j @ script_syncs h us (Suc j)"

definition all_events :: "schedule \<Rightarrow> asset list \<Rightarrow> string list \<Rightarrow> event list" where
  "all_events h assets scripts =
     asset_syncs h assets 0 @ script_syncs h scripts 0 @ afterwards h"

text \<open>
  An event is about an item that has been asked for: when the loops have reached asset
  \<open>i\<close> and script \<open>j\<close>, these are the assets before \<open>i\<close> and the scripts before \<open>j\<close>.
\<close>

definition issued :: "nat \<Rightarrow> nat \<Rightarrow> event \<Rightarrow> bool" where
  "issued i j e = (case item_of e of AssetItem k \<Rightarrow> k < i | ScriptItem k \<Rightarrow> k < j)"

text \<open>
  \<open>preload\<close> registers no handler on an asset that is already loaded, nor on one that is
  not in the batch: an event of such an asset is not heard. A \<open>once\<close> handler is gone after
  its first run, so a repetition of the \<open>load\<close> event of an asset, or of its \<open>error\<close>
  event, finds no handler either. \<open>first_events assets prev evs\<close> drops from \<open>evs\<close> the
  events that are not heard and these repetitions, \<open>prev\<close> being what was delivered
  before. The \<open>load\<close> and the \<open>error\<close> event of one asset are not repetitions of each
  other, and the loader calling back again for a script is not a repetition either: the
  script callback has no guard.
\<close>

fun unheard :: "asset list \<Rightarrow> event \<Rightarrow> bool" where
  "unheard assets (AssetLoad i) = (length assets \<le> i \<or> loaded (assets ! i))"
| "unheard assets (AssetError i) = (length assets \<le> i \<or> loaded (assets ! i))"
| "unheard assets (ScriptLoaded j err) = False"

fun repeated :: "event list \<Rightarrow> event \<Rightarrow> bool" where
  "repeated prev (AssetLoad i) = (AssetLoad i \<in> set prev)"
| "repeated prev (AssetError i) = (AssetError i \<in> set prev)"
| "repeated prev (ScriptLoaded j err) = False"

fun first_events :: "asset list \<Rightarrow> event list \<Rightarrow> event list \<Rightarrow> event list" where
  "first_events assets prev [] = []"
| "first_events assets prev (e # es) =
     (if unheard assets e \<or> repeated prev e then [] else [e]) @
     first_events assets (prev @ [e]) es"

text \<open>
  The events that arrive while a request is being issued are about items that have been
  asked for by then, or are not heard.
\<close>

definition causal :: "schedule \<Rightarrow> asset list \<Rightarrow> string list \<Rightarrow> bool" where
  "causal h assets scripts =
     ((\<forall>i\<in>{0..<length assets}. \<forall>e\<in>set (during_asset h i).
         issued (Suc i) 0 e \<or> unheard assets e) \<and>
      (\<forall>j\<in>{0..<length scripts}. \<forall>e\<in>set (during_script h j).
         issued (length assets) (Suc j) e \<or> unheard assets e))"

text \<open>
  Every pending item settles exactly once, at any time after it has been asked for, in
  any order and with any outcome: each script is called back once, each asset that is not
  loaded yet fires \<open>load\<close> or \<open>error\<close> but not both, any number of times. Events that are
  not heard may arrive at any time.
\<close>

definition settles_each_once :: "schedule \<Rightarrow> asset list \<Rightarrow> string list \<Rightarrow> bool" where
  "settles_each_once h assets scripts =
     (distinct (map item_of (first_events assets [] (all_events h assets scripts))) \<and>
      set (map item_of (first_events assets [] (all_events h assets scripts))) =
        set (pending assets scripts) \<and>
      causal h assets scripts)"

subsection \<open>Configuration: \<open>configure\<close> and \<open>_parseApplicationProperties\<close>\<close>

datatype fill_mode = FILLMODE_NONE | FILLMODE_FILL_WINDOW | FILLMODE_KEEP_ASPECT

datatype resolution_mode = RESOLUTION_AUTO | RESOLUTION_FIXED

text \<open>The \<open>application_properties\<close> block of the configuration response.\<close>

record app_props =
  props_width :: nat
  props_height :: nat
  props_resolution_mode :: resolution_mode
  props_fill_mode :: fill_mode
  props_libraries :: "string list"

text \<open>
  What \<open>configure\<close> does to its surroundings, in order. \<open>ConfigureCallback e\<close> is one
  invocation of the callback passed to \<open>configure\<close>, with its argument (\<open>None\<close> is
  \<open>null\<close>).
\<close>

datatype cfg_note =
    SetCanvasResolution resolution_mode nat nat
  | SetCanvasFillMode fill_mode nat nat
  | LoadLibrary string
  | RigidbodyOnLibraryLoaded
  | ParseScripts
  | ParseAssets
  | ConfigureCallback "string option"

record cfg_state =
  lib_count :: int
  lib_requests :: "nat set"
  cfg_notes :: "cfg_note list"

definition cfg_emit :: "cfg_note \<Rightarrow> cfg_state \<Rightarrow> cfg_state" where
  "cfg_emit n s = s\<lparr>cfg_notes := cfg_notes s @ [n]\<rparr>"

text \<open>
  The function that \<open>configure\<close> passes to \<open>_parseApplicationProperties\<close>: it parses the
  script and asset lists and hands \<open>null\<close> or the error to the caller's callback.
\<close>

definition configure_callback :: "string option \<Rightarrow> cfg_state \<Rightarrow> cfg_state" where
  "configure_callback err s =
     (let s1 = cfg_emit ParseScripts s;
          s2 = cfg_emit ParseAssets s1
      in if \<not> truthy err then cfg_emit (ConfigureCallback None) s2
         else cfg_emit (ConfigureCallback err) s2)"

text \<open>The callback given to the loader for each library; \<open>count\<close> is shared by all of them.\<close>

definition library_loaded ::
  "(string option \<Rightarrow> cfg_state \<Rightarrow> cfg_state) \<Rightarrow> string option \<Rightarrow> cfg_state \<Rightarrow> cfg_state" where
  "library_loaded callback err s =
     (let s1 = s\<lparr>lib_count := lib_count s - 1\<rparr>
      in if truthy err then callback err s1
         else if lib_count s1 = 0 then callback None (cfg_emit RigidbodyOnLibraryLoaded s1)
         else s1)"

fun libraries_loop :: "string list \<Rightarrow> nat \<Rightarrow> cfg_state \<Rightarrow> cfg_state" where
  "libraries_loop [] i s = s"
| "libraries_loop (url # urls) i s =
     libraries_loop urls (Suc i)
       (cfg_emit (LoadLibrary url) (s\<lparr>lib_requests := insert i (lib_requests s)\<rparr>))"

definition parseApplicationProperties ::
  "app_props \<Rightarrow> (string option \<Rightarrow> cfg_state \<Rightarrow> cfg_state) \<Rightarrow> cfg_state \<Rightarrow> cfg_state" where
  "parseApplicationProperties props callback s =
     (let s1 = cfg_emit (SetCanvasResolution (props_resolution_mode props)
                           (props_width props) (props_height props)) s;
          s2 = cfg_emit (SetCanvasFillMode (props_fill_mode props)
                           (props_width props) (props_height props)) s1;
          len = length (props_libraries props);
          s3 = s2\<lparr>lib_count := int len\<rparr>
      in if len \<noteq> 0 then libraries_loop (props_libraries props) 0 s3
         else callback None s3)"

text \<open>The loader reports library \<open>i\<close> with an error or without one.\<close>

datatype lib_event = LibraryLoaded nat "string option"

fun on_lib_event :: "lib_event \<Rightarrow> cfg_state \<Rightarrow> cfg_state" where
  "on_lib_event (LibraryLoaded i err) s =
     (if i \<in> lib_requests s then library_loaded configure_callback err s else s)"

text \<open>The outcome of the HTTP request that \<open>configure\<close> starts with.\<close>

datatype http_result = HttpResponse app_props | HttpError string

definition configure :: "http_result \<Rightarrow> cfg_state" where
  "configure res =
     (let s0 = \<lparr>lib_count = 0, lib_requests = {}, cfg_notes = []\<rparr>
      in case res of
           HttpResponse props \<Rightarrow> parseApplicationProperties props configure_callback s0
         | HttpError status \<Rightarrow> cfg_emit (ConfigureCallback (Some status)) s0)"

definition run_configure :: "http_result \<Rightarrow> lib_event list \<Rightarrow> cfg_state" where
  "run_configure res evs = foldl (\<lambda>s e. on_lib_event e s) (configure res) evs"

definition configure_callbacks :: "cfg_state \<Rightarrow> string option list" where
  "configure_callbacks s =
     concat (map (\<lambda>n. case n of ConfigureCallback e \<Rightarrow> [e] | _ \<Rightarrow> []) (cfg_notes s))"

subsection \<open>The frame loop: \<open>start\<close>, \<open>tick\<close>, \<open>update\<close>, \<open>render\<close>\<close>

type_synonym camera = nat

datatype entity = Entity string "entity list"

record scene =
  scene_name :: string
  scene_root :: "entity option"

text \<open>The calls that the frame loop makes on its collaborators, in the order made.\<close>

datatype call =
    AddChild entity
  | ConsoleLogText string
  | Node_initialize string
  | Node_postInitialize string
  | RequestAnimationFrame
  | ComponentSystem_fixedUpdate real bool
  | ComponentSystem_update real bool
  | ComponentSystem_postUpdate real bool
  | Fire_update real
  | Controller_update real
  | Mouse_update real
  | Keyboard_update real
  | Gamepads_update real
  | SyncHierarchy
  | FrameBegin camera
  | Renderer_render "scene option" camera
  | FrameEnd camera

text \<open>
  The fields of the application object that the frame loop reads and writes. The input
  devices are present or absent; \<open>cameras\<close> is \<open>systems.camera.cameras\<close>.
\<close>

record app =
  app_time :: real
  timeScale :: real
  inTools :: bool
  controller :: bool
  mouse :: bool
  keyboard :: bool
  gamepads :: bool
  cameras :: "camera list"
  app_scene :: "scene option"
  app_root :: entity
  calls :: "call list"

definition emit :: "call \<Rightarrow> app \<Rightarrow> app" where
  "emit c a = a\<lparr>calls := calls a @ [c]\<rparr>"

definition emit_all :: "call list \<Rightarrow> app \<Rightarrow> app" where
  "emit_all cs a = a\<lparr>calls := calls a @ cs\<rparr>"

text \<open>The state the constructor leaves: \<open>_time = 0\<close>, \<open>timeScale = 1\<close>, no scene.\<close>

definition Application :: "bool \<Rightarrow> bool \<Rightarrow> bool \<Rightarrow> app" where
  "Application kb ms gp =
     \<lparr>app_time = 0, timeScale = 1, inTools = False, controller = False, mouse = ms,
      keyboard = kb, gamepads = gp, cameras = [], app_scene = None,
      app_root = Entity [] [], calls = []\<rparr>"

definition app_update :: "real \<Rightarrow> app \<Rightarrow> app" where
  "app_update dt a =
     (let a1 = emit (ComponentSystem_fixedUpdate (1 / 60) (inTools a)) a;
          a2 = emit (ComponentSystem_update dt (inTools a1)) a1;
          a3 = emit (ComponentSystem_postUpdate dt (inTools a2)) a2;
          a4 = emit (Fire_update dt) a3;
          a5 = (if controller a4 then emit (Controller_update dt) a4 else a4);
          a6 = (if mouse a5 then emit (Mouse_update dt) a5 else a5);
          a7 = (if keyboard a6 then emit (Keyboard_update dt) a6 else a6);
          a8 = (if gamepads a7 then emit (Gamepads_update dt) a7 else a7)
      in a8)"

text \<open>The loop of \<open>render\<close> over the camera array, \<open>i\<close> being the loop index.\<close>

function render_loop :: "nat \<Rightarrow> nat \<Rightarrow> app \<Rightarrow> app" where
  "render_loop i len a =
     (if i < len then
        (let camera = cameras a ! i;
             a1 = emit (FrameBegin camera) a;
             a2 = emit (Renderer_render (app_scene a1) camera) a1;
             a3 = emit (FrameEnd camera) a2
         in render_loop (Suc i) len a3)
      else a)"
  by pat_completeness auto
termination
  by (relation "measure (\<lambda>(i, len, a). len - i)") auto

declare render_loop.simps [simp del]

definition app_render :: "app \<Rightarrow> app" where
  "app_render a = render_loop 0 (length (cameras a)) (emit SyncHierarchy a)"

text \<open>\<open>a || b\<close> on numbers: \<open>0\<close> is falsy.\<close>

definition js_or :: "real \<Rightarrow> real \<Rightarrow> real" where
  "js_or a b = (if a = 0 then b else a)"

text \<open>
  \<open>tick\<close>, given the reading \<open>now\<close> of the clock. \<open>pc.math.clamp\<close> is not part of these
  sources; \<open>tick\<close> takes it as the parameter \<open>clamp\<close>. \<open>tick_dt\<close> is the value of the local
  variable \<open>dt\<close> when \<open>update\<close> is called.
\<close>

definition tick_dt :: "(real \<Rightarrow> real \<Rightarrow> real \<Rightarrow> real) \<Rightarrow> real \<Rightarrow> app \<Rightarrow> real" where
  "tick_dt clamp now a =
     (let dt = (now - js_or (app_time a) now) / 1000;
          dt1 = clamp dt 0 (1 / 10);
          dt2 = dt1 * timeScale a
      in dt2)"

definition tick :: "(real \<Rightarrow> real \<Rightarrow> real \<Rightarrow> real) \<Rightarrow> real \<Rightarrow> app \<Rightarrow> app" where
  "tick clamp now a =
     (let a1 = emit RequestAnimationFrame a;
          dt = tick_dt clamp now a1;
          a2 = a1\<lparr>app_time := now\<rparr>;
          a3 = app_update dt a2
      in app_render a3)"

text \<open>Modelled from the spec: \<open>pc.math.clamp\<close>, which clamps \<open>dt\<close> to \<open>[0, 0.1]\<close>, is not
  under the sources; this is the clamp of a value to the interval from \<open>lo\<close> to \<open>hi\<close>.\<close>

definition math_clamp :: "real \<Rightarrow> real \<Rightarrow> real \<Rightarrow> real" where
  "math_clamp v lo hi = (if v \<ge> hi then hi else if v \<le> lo then lo else v)"

text \<open>A run of the frame loop: one \<open>tick\<close> per reading of the clock.\<close>

definition ticks :: "(real \<Rightarrow> real \<Rightarrow> real \<Rightarrow> real) \<Rightarrow> real list \<Rightarrow> app \<Rightarrow> app" where
  "ticks clamp nows a = foldl (\<lambda>a now. tick clamp now a) a nows"

definition update_dts :: "app \<Rightarrow> real list" where
  "update_dts a =
     concat (map (\<lambda>c. case c of ComponentSystem_update dt _ \<Rightarrow> [dt] | _ \<Rightarrow> []) (calls a))"

text \<open>\<open>root.addChild(child)\<close>: the child becomes the last child of the root.\<close>

fun add_child :: "entity \<Rightarrow> entity \<Rightarrow> entity" where
  "add_child (Entity n cs) child = Entity n (cs @ [child])"

definition attach_scene :: "app \<Rightarrow> app" where
  "attach_scene a =
     (case app_scene a of
        None \<Rightarrow> a
      | Some sc \<Rightarrow>
          (case scene_root sc of
             None \<Rightarrow> a
           | Some r \<Rightarrow> emit (AddChild r) (a\<lparr>app_root := add_child (app_root a) r\<rparr>)))"

text \<open>
  \<open>start\<close>. \<open>pc.ComponentSystem.initialize\<close> and \<open>pc.ComponentSystem.postInitialize\<close> are
  not part of these sources; \<open>start\<close> takes as parameters the calls that each of them
  makes, synchronously, when handed a hierarchy.
\<close>

definition start ::
  "(entity \<Rightarrow> call list) \<Rightarrow> (entity \<Rightarrow> call list) \<Rightarrow>
   (real \<Rightarrow> real \<Rightarrow> real \<Rightarrow> real) \<Rightarrow> real \<Rightarrow> app \<Rightarrow> app" where
  "start initialize postInitialize clamp now a =
     (let a1 = attach_scene a;
          a2 = emit (ConsoleLogText ''INITIALIZE'') a1;
          a3 = emit_all (initialize (app_root a2)) a2;
          a4 = emit_all (postInitialize (app_root a3)) a3
      in tick clamp now a4)"

subsection \<open>The canvas: \<open>resizeCanvas\<close>, \<open>setCanvasFillMode\<close>, \<open>setCanvasResolution\<close>\<close>

text \<open>
  JavaScript numbers as far as \<open>resizeCanvas\<close> needs them: a finite double, an infinity or
  \<open>NaN\<close>, so that a division by zero is what it is in the source. Zero has no sign.
\<close>

datatype jsnum = Num real | PosInf | NegInf | NaN

text \<open>
  Every arithmetic operation of the language yields the double (IEEE 754 binary64)
  nearest to the exact result, ties going to the even significand. \<open>rne\<close> rounds to the
  nearest integer in this way. \<open>quantum n x q e\<close> looks for the spacing \<open>q = 2 ^ e\<close> of the
  doubles around \<open>x > 0\<close>, the one with \<open>2 ^ 52 * q \<le> x < 2 ^ 53 * q\<close>, starting from \<open>q\<close>
  and not going below the spacing \<open>2 ^ - 1074\<close> of the subnormal numbers; \<open>n\<close> bounds the
  number of steps. A result of \<open>2 ^ 1024\<close> or more is an infinity.
\<close>

definition rne :: "real \<Rightarrow> int" where
  "rne y = (let f = \<lfloor>y\<rfloor>; d = y - of_int f
            in if d < 1 / 2 then f else if 1 / 2 < d then f + 1
               else if even f then f else f + 1)"

fun quantum :: "nat \<Rightarrow> real \<Rightarrow> real \<Rightarrow> int \<Rightarrow> real \<times> int" where
  "quantum n x q e =
     (if n = 0 then (q, e)
      else if x < 2 ^ 52 * q \<and> - 1074 < e then quantum (n - 1) x (q / 2) (e - 1)
      else if 2 ^ 53 * q \<le> x then quantum (n - 1) x (2 * q) (e + 1)
      else (q, e))"

declare quantum.simps [simp del]

definition to_double :: "real \<Rightarrow> jsnum" where
  "to_double x =
     (if x = 0 then Num 0
      else (let (q, e) = quantum 2200 \<bar>x\<bar> 1 0;
                m = rne (\<bar>x\<bar> / q)
            in if 971 < e \<or> (e = 971 \<and> 2 ^ 53 \<le> m) then (if 0 < x then PosInf else NegInf)
               else Num (if 0 < x then of_int m * q else - (of_int m * q))))"

fun js_div :: "jsnum \<Rightarrow> jsnum \<Rightarrow> jsnum" where
  "js_div NaN y = NaN"
| "js_div x NaN = NaN"
| "js_div (Num a) (Num b) =
     (if b \<noteq> 0 then to_double (a / b)
      else if a = 0 then NaN else if 0 < a then PosInf else NegInf)"
| "js_div (Num a) PosInf = Num 0"
| "js_div (Num a) NegInf = Num 0"
| "js_div PosInf (Num b) = (if 0 \<le> b then PosInf else NegInf)"
| "js_div NegInf (Num b) = (if 0 \<le> b then NegInf else PosInf)"
| "js_div PosInf y = NaN"
| "js_div NegInf y = NaN"

fun js_mul :: "jsnum \<Rightarrow> jsnum \<Rightarrow> jsnum" where
  "js_mul NaN y = NaN"
| "js_mul x NaN = NaN"
| "js_mul (Num a) (Num b) = to_double (a * b)"
| "js_mul (Num a) PosInf = (if a = 0 then NaN else if 0 < a then PosInf else NegInf)"
| "js_mul (Num a) NegInf = (if a = 0 then NaN else if 0 < a then NegInf else PosInf)"
| "js_mul PosInf (Num b) = (if b = 0 then NaN else if 0 < b then PosInf else NegInf)"
| "js_mul NegInf (Num b) = (if b = 0 then NaN else if 0 < b then NegInf else PosInf)"
| "js_mul PosInf PosInf = PosInf"
| "js_mul PosInf NegInf = NegInf"
| "js_mul NegInf PosInf = NegInf"
| "js_mul NegInf NegInf = PosInf"

fun js_gt :: "jsnum \<Rightarrow> jsnum \<Rightarrow> bool" where
  "js_gt NaN y = False"
| "js_gt x NaN = False"
| "js_gt (Num a) (Num b) = (b < a)"
| "js_gt (Num a) PosInf = False"
| "js_gt (Num a) NegInf = True"
| "js_gt PosInf PosInf = False"
| "js_gt PosInf y = True"
| "js_gt NegInf y = False"

datatype vp_effect =
    GraphicsDevice_resizeCanvas "jsnum option" "jsnum option"
  | GraphicsDevice_resizeCanvas_client
  | Style_width "jsnum option"
  | Style_height "jsnum option"

text \<open>
  The window's inner size and the canvas's backing size are integers of 32 bits (\<open>long\<close>
  and \<open>unsigned long\<close> attributes of the host), read as non-negative; each of them is a
  double.
\<close>

record viewport =
  fillMode :: fill_mode
  resolutionMode :: resolution_mode
  isCocoonJS :: bool
  devicePixelRatio :: jsnum
  innerWidth :: "32 word"
  innerHeight :: "32 word"
  canvas_width :: "32 word"
  canvas_height :: "32 word"
  vp_effects :: "vp_effect list"

text \<open>The number that reading such an attribute gives.\<close>

definition js_long :: "32 word \<Rightarrow> jsnum" where
  "js_long n = Num (real (unat n))"

definition vp_emit :: "vp_effect \<Rightarrow> viewport \<Rightarrow> viewport" where
  "vp_emit e v = v\<lparr>vp_effects := vp_effects v @ [e]\<rparr>"

definition setCanvasResolution ::
  "resolution_mode \<Rightarrow> jsnum option \<Rightarrow> jsnum option \<Rightarrow> viewport \<Rightarrow> viewport" where
  "setCanvasResolution mode width height v =
     (let v1 = v\<lparr>resolutionMode := mode\<rparr>
      in if mode = RESOLUTION_AUTO \<and> width = None then vp_emit GraphicsDevice_resizeCanvas_client v1
         else vp_emit (GraphicsDevice_resizeCanvas width height) v1)"

text \<open>The aspect ratio \<open>r\<close> of the backing buffer and the ratio \<open>winR\<close> of the window.\<close>

definition backing_ratio :: "viewport \<Rightarrow> jsnum" where
  "backing_ratio v = js_div (js_long (canvas_width v)) (js_long (canvas_height v))"

definition window_ratio :: "viewport \<Rightarrow> jsnum" where
  "window_ratio v = js_div (js_long (innerWidth v)) (js_long (innerHeight v))"

text \<open>\<open>resizeCanvas\<close> returns the pair \<open>{width, height}\<close> and leaves its effects.\<close>

definition resizeCanvas ::
  "jsnum option \<Rightarrow> jsnum option \<Rightarrow> viewport \<Rightarrow> (jsnum option \<times> jsnum option) \<times> viewport" where
  "resizeCanvas width height v =
     (let windowWidth = js_long (innerWidth v);
          windowHeight = js_long (innerHeight v)
      in if isCocoonJS v then
           (let ratio = devicePixelRatio v
            in ((Some windowWidth, Some windowHeight),
                vp_emit (GraphicsDevice_resizeCanvas (Some (js_mul windowWidth ratio))
                           (Some (js_mul windowHeight ratio))) v))
         else
           (let (w, h) =
                  (if fillMode v = FILLMODE_KEEP_ASPECT then
                     (let r = backing_ratio v;
                          winR = window_ratio v
                      in if js_gt r winR then (Some windowWidth, Some (js_div windowWidth r))
                         else (Some (js_mul windowHeight r), Some windowHeight))
                   else if fillMode v = FILLMODE_FILL_WINDOW then (Some windowWidth, Some windowHeight)
                   else (width, height));
                v1 = vp_emit (Style_width w) v;
                v2 = vp_emit (Style_height h) v1;
                v3 = (if resolutionMode v2 = RESOLUTION_AUTO
                      then setCanvasResolution RESOLUTION_AUTO None None v2 else v2)
            in ((w, h), v3)))"

definition setCanvasFillMode ::
  "fill_mode \<Rightarrow> jsnum option \<Rightarrow> jsnum option \<Rightarrow> viewport \<Rightarrow> viewport" where
  "setCanvasFillMode mode width height v = snd (resizeCanvas width height (v\<lparr>fillMode := mode\<rparr>))"

text \<open>The ratio of the returned pair, \<open>NaN\<close> when a component is \<open>undefined\<close>.\<close>

fun returned_ratio :: "jsnum option \<times> jsnum option \<Rightarrow> jsnum" where
  "returned_ratio (Some w, Some h) = js_div w h"
| "returned_ratio _ = NaN"

subsection \<open>Fullscreen: \<open>enableFullscreen\<close> and \<open>disableFullscreen\<close>\<close>

text \<open>
  The listeners that the two functions register on the document. Every call creates its
  own closures, so a listener is known by the number of the call that made it: \<open>s\<close> and
  \<open>e\<close> of \<open>enableFullscreen\<close>, \<open>s\<close> of \<open>disableFullscreen\<close>.
\<close>

datatype listener = Enable_s nat | Enable_e nat | Disable_s nat

datatype fs_call =
    Success_callback nat
  | Error_callback nat
  | RequestFullscreen
  | ExitFullscreen

record document =
  fullscreenchange :: "listener list"
  fullscreenerror :: "listener list"
  next_call :: nat
  fs_calls :: "fs_call list"

definition new_document :: document where
  "new_document = \<lparr>fullscreenchange = [], fullscreenerror = [], next_call = 0, fs_calls = []\<rparr>"

text \<open>\<open>success\<close> and \<open>error\<close> say whether the caller passed the callback.\<close>

definition enableFullscreen :: "bool \<Rightarrow> bool \<Rightarrow> document \<Rightarrow> document" where
  "enableFullscreen success error d =
     (let k = next_call d;
          d1 = (if success then d\<lparr>fullscreenchange := fullscreenchange d @ [Enable_s k]\<rparr> else d);
          d2 = (if error then d1\<lparr>fullscreenerror := fullscreenerror d1 @ [Enable_e k]\<rparr> else d1)
      in d2\<lparr>fs_calls := fs_calls d2 @ [RequestFullscreen], next_call := Suc k\<rparr>)"

definition disableFullscreen :: "bool \<Rightarrow> document \<Rightarrow> document" where
  "disableFullscreen success d =
     (let k = next_call d;
          d1 = (if success then d\<lparr>fullscreenchange := fullscreenchange d @ [Disable_s k]\<rparr> else d)
      in d1\<lparr>fs_calls := fs_calls d1 @ [ExitFullscreen], next_call := Suc k\<rparr>)"

text \<open>The bodies of the closures: call the callback, then remove this listener.\<close>

fun invoke :: "listener \<Rightarrow> document \<Rightarrow> document" where
  "invoke (Enable_s k) d =
     d\<lparr>fs_calls := fs_calls d @ [Success_callback k],
       fullscreenchange := removeAll (Enable_s k) (fullscreenchange d)\<rparr>"
| "invoke (Enable_e k) d =
     d\<lparr>fs_calls := fs_calls d @ [Error_callback k],
       fullscreenerror := removeAll (Enable_e k) (fullscreenerror d)\<rparr>"
| "invoke (Disable_s k) d =
     d\<lparr>fs_calls := fs_calls d @ [Success_callback k],
       fullscreenchange := removeAll (Disable_s k) (fullscreenchange d)\<rparr>"

text \<open>
  The host dispatches an event to the listeners registered when the dispatch starts, in
  order of registration, leaving out one that was removed in the meantime.
\<close>

definition dispatch_fullscreenchange :: "document \<Rightarrow> document" where
  "dispatch_fullscreenchange d =
     foldl (\<lambda>d l. if l \<in> set (fullscreenchange d) then invoke l d else d) d (fullscreenchange d)"

definition dispatch_fullscreenerror :: "document \<Rightarrow> document" where
  "dispatch_fullscreenerror d =
     foldl (\<lambda>d l. if l \<in> set (fullscreenerror d) then invoke l d else d) d (fullscreenerror d)"

subsection \<open>Bundles: \<open>loadFromToc\<close>\<close>

datatype js_exception =
    NotAFunction string
  | PropertyOfUndefined string

datatype toc_note =
    ErrorCallback string
  | On_librariesloaded
  | Loader_on_progress
  | Assets_load nat
  | SetTimeout_onLoaded

text \<open>
  The content table as the function reads it. \<open>toc\<close> is a plain object: its own entries
  are the list, and a name that every object inherits is found as well, with a value
  that has no \<open>packs\<close>. An entry has a \<open>packs\<close> array or lacks the property; the
  \<open>toc\<close> property itself may be absent.
\<close>

record toc_entry =
  packs :: "string list option"

record content =
  toc :: "(string \<times> toc_entry) list option"

definition object_prototype_names :: "string list" where
  "object_prototype_names =
     [''constructor'', ''hasOwnProperty'', ''isPrototypeOf'', ''propertyIsEnumerable'',
      ''toLocaleString'', ''toString'', ''valueOf'', ''__proto__'', ''__defineGetter__'',
      ''__defineSetter__'', ''__lookupGetter__'', ''__lookupSetter__'']"

definition toc_get :: "(string \<times> toc_entry) list \<Rightarrow> string \<Rightarrow> toc_entry option" where
  "toc_get entries name =
     (case map_of entries name of
        Some t \<Rightarrow> Some t
      | None \<Rightarrow> if name \<in> set object_prototype_names then Some \<lparr>packs = None\<rparr> else None)"

record toc_app =
  app_content :: "content option"
  librariesLoaded :: bool

text \<open>
  \<open>loadFromToc\<close> up to its return or to the exception that ends it, with the notes left
  until then. \<open>success\<close>, \<open>error\<close> and \<open>progress\<close> say whether the caller passed the callback;
  \<open>assets_list\<close> is \<open>this.assets.list\<close>, which is not part of these sources. The exception
  names what was read of \<open>undefined\<close>: \<open>toc\<close> of the absent content, the name of the block in
  an absent \<open>toc\<close>, \<open>packs\<close> of an absent block, the index \<open>0\<close> of absent \<open>packs\<close>.
\<close>

definition loadFromToc ::
  "(string option \<Rightarrow> string list) \<Rightarrow> string \<Rightarrow> bool \<Rightarrow> bool \<Rightarrow> bool \<Rightarrow> toc_app \<Rightarrow>
   toc_note list \<times> (js_exception + unit)" where
  "loadFromToc assets_list name success error progress a =
     (case (if app_content a = None
            then (if error then Inr [ErrorCallback ''No content''] else Inl (NotAFunction ''error''))
            else Inr []) of
        Inl exn \<Rightarrow> ([], Inl exn)
      | Inr notes1 \<Rightarrow>
          (case app_content a of
             None \<Rightarrow> (notes1, Inl (PropertyOfUndefined ''toc''))
           | Some c \<Rightarrow>
               (case toc c of
                  None \<Rightarrow> (notes1, Inl (PropertyOfUndefined name))
                | Some entries \<Rightarrow>
                    (case toc_get entries name of
                       None \<Rightarrow> (notes1, Inl (PropertyOfUndefined ''packs''))
                     | Some t \<Rightarrow>
                         (case packs t of
                            None \<Rightarrow> (notes1, Inl (PropertyOfUndefined ''0''))
                          | Some ps \<Rightarrow>
                              (let guid = (case ps of [] \<Rightarrow> None | g # _ \<Rightarrow> Some g)
                               in if \<not> librariesLoaded a
                                  then (notes1 @ [On_librariesloaded], Inr ())
                                  else
                                    (let assets = assets_list guid;
                                         notes2 = notes1 @ [Loader_on_progress]
                                     in if length assets \<noteq> 0
                                        then (notes2 @ [Assets_load (length assets)], Inr ())
                                        else (notes2 @ [SetTimeout_onLoaded], Inr ()))))))))"

section \<open>Auxiliary notions\<close>

subsection \<open>Preloading\<close>

text \<open>Named batches and assets used in the examples.\<close>

definition unloaded_asset :: "string \<Rightarrow> asset" where
  "unloaded_asset n = \<lparr>asset_name = n, loaded = False\<rparr>"

definition loaded_asset :: "string \<Rightarrow> asset" where
  "loaded_asset n = \<lparr>asset_name = n, loaded = True\<rparr>"

fun asset_event :: "event \<Rightarrow> bool" where
  "asset_event (ScriptLoaded _ _) = False"
| "asset_event _ = True"

fun asset_item :: "item \<Rightarrow> bool" where
  "asset_item (AssetItem _) = True"
| "asset_item (ScriptItem _) = False"

text \<open>An event is fresh in a state when its item has not settled there.\<close>

fun fresh :: "event \<Rightarrow> pstate \<Rightarrow> bool" where
  "fresh (AssetLoad i) s = (i \<in> load_once s \<and> i \<in> error_once s)"
| "fresh (AssetError i) s = (i \<in> load_once s \<and> i \<in> error_once s)"
| "fresh (ScriptLoaded j err) s = (j \<in> script_requests s)"

text \<open>The latch and the number of callback invocations agree.\<close>

definition latch_inv :: "pstate \<Rightarrow> bool" where
  "latch_inv s = (callbacks s = (if done_flag s then 1 else 0))"

definition a_count :: "pstate \<Rightarrow> nat" where
  "a_count s = p_count (assets_p s)"

definition a_len :: "pstate \<Rightarrow> nat" where
  "a_len s = p_length (assets_p s)"

definition s_count :: "pstate \<Rightarrow> nat" where
  "s_count s = p_count (scripts_p s)"

definition s_len :: "pstate \<Rightarrow> nat" where
  "s_len s = p_length (scripts_p s)"

definition complete :: "pstate \<Rightarrow> bool" where
  "complete s = (a_count s = a_len s \<and> s_count s = s_len s)"

text \<open>The state of \<open>preload\<close> before the loops and between them.\<close>

definition s_init :: "asset list \<Rightarrow> string list \<Rightarrow> pstate" where
  "s_init assets scripts =
     \<lparr>assets_p = Progress (length assets), scripts_p = Progress (length scripts),
      done_flag = False, preloading = True, load_once = {}, error_once = {},
      script_requests = {}, notices = []\<rparr>"

definition s_mid :: "schedule \<Rightarrow> asset list \<Rightarrow> string list \<Rightarrow> pstate" where
  "s_mid h assets scripts =
     (if assets \<noteq> [] then assets_loop h assets 0 (s_init assets scripts)
      else preload_done (s_init assets scripts))"

text \<open>
  The invariant of a batch of \<open>N\<close> items in which every item settles once. \<open>rem\<close> are the
  events still to come, \<open>c\<close> is the number of loaded assets that the loop has yet to
  reach, and \<open>iss\<close> tells the events whose item has been asked for. The counters lack
  exactly what is still to come, the latch is set exactly when nothing is, and the
  notices are one per settlement, followed by the callback once the latch is set.
\<close>

definition J :: "(event \<Rightarrow> bool) \<Rightarrow> nat \<Rightarrow> nat \<Rightarrow> pstate \<Rightarrow> event list \<Rightarrow> bool" where
  "J iss N c s rem \<longleftrightarrow>
     distinct (map item_of rem) \<and>
     (\<forall>e\<in>set rem. iss e \<longrightarrow> fresh e s) \<and>
     a_count s + c + length (filter asset_event rem) = a_len s \<and>
     s_count s + length (filter (\<lambda>e. \<not> asset_event e) rem) = s_len s \<and>
     done_flag s = (c = 0 \<and> rem = []) \<and>
     preloading s = (\<not> done_flag s) \<and>
     (\<exists>pre. notices s = pre @ (if done_flag s then [Callback [] False] else []) \<and>
            length pre + c + length rem = N \<and> (\<forall>n\<in>set pre. \<not> is_callback n) \<and>
            length (filter is_progress pre) + c + length (filter asset_event rem) = a_len s)"

text \<open>
  What a settlement is expected to write to the console: the callback of a script writes
  its error when there is one and the script type otherwise; the handlers of an asset
  write nothing.
\<close>

fun is_console :: "notice \<Rightarrow> bool" where
  "is_console (ConsoleError _) = True"
| "is_console (ConsoleLog _) = True"
| "is_console _ = False"

fun console_of :: "event \<Rightarrow> notice list" where
  "console_of (ScriptLoaded j None) = [ConsoleLog j]"
| "console_of (ScriptLoaded j (Some m)) = (if m = [] then [ConsoleLog j] else [ConsoleError m])"
| "console_of _ = []"

text \<open>An asset event is dead in a state when its \<open>once\<close> handler is not registered there.\<close>

fun dead :: "event \<Rightarrow> pstate \<Rightarrow> bool" where
  "dead (AssetLoad i) s = (i \<notin> load_once s)"
| "dead (AssetError i) s = (i \<notin> error_once s)"
| "dead (ScriptLoaded j err) s = False"

text \<open>
  The invariant with the events delivered so far: \<open>J\<close> holds for the events to come that
  are heard and are not repetitions, the asset events delivered have used up their
  handlers, handlers are registered only on assets of the batch that are not loaded, and
  the console holds what the delivered events wrote.
\<close>

definition K ::
  "asset list \<Rightarrow> (event \<Rightarrow> bool) \<Rightarrow> nat \<Rightarrow> nat \<Rightarrow> pstate \<Rightarrow> event list \<Rightarrow> event list \<Rightarrow> bool" where
  "K A iss N c s prev rem \<longleftrightarrow>
     J iss N c s (first_events A prev rem) \<and>
     (\<forall>e\<in>set prev. (iss e \<or> unheard A e) \<and> (asset_event e \<longrightarrow> dead e s)) \<and>
     (\<forall>i\<in>load_once s \<union> error_once s. i < length A \<and> \<not> loaded (A ! i)) \<and>
     filter is_console (notices s) = concat (map console_of prev)"

subsection \<open>Configuration\<close>

definition props_with :: "string list \<Rightarrow> app_props" where
  "props_with libs =
     \<lparr>props_width = 800, props_height = 600, props_resolution_mode = RESOLUTION_AUTO,
      props_fill_mode = FILLMODE_KEEP_ASPECT, props_libraries = libs\<rparr>"

subsection \<open>The frame loop\<close>

text \<open>The calls of the render phase for the cameras, and of the input polling.\<close>

definition camera_calls :: "scene option \<Rightarrow> camera list \<Rightarrow> call list" where
  "camera_calls sc cs = concat (map (\<lambda>c. [FrameBegin c, Renderer_render sc c, FrameEnd c]) cs)"

definition input_calls :: "real \<Rightarrow> app \<Rightarrow> call list" where
  "input_calls dt a =
     (if controller a then [Controller_update dt] else []) @
     (if mouse a then [Mouse_update dt] else []) @
     (if keyboard a then [Keyboard_update dt] else []) @
     (if gamepads a then [Gamepads_update dt] else [])"

definition dts_of :: "call list \<Rightarrow> real list" where
  "dts_of cs = concat (map (\<lambda>c. case c of ComponentSystem_update dt _ \<Rightarrow> [dt] | _ \<Rightarrow> []) cs)"

text \<open>The calls that one \<open>tick\<close> adds.\<close>

definition tick_calls :: "(real \<Rightarrow> real \<Rightarrow> real \<Rightarrow> real) \<Rightarrow> real \<Rightarrow> app \<Rightarrow> call list" where
  "tick_calls clamp now a = drop (length (calls a)) (calls (tick clamp now a))"

text \<open>The root of the scene, when there is a scene and it has one.\<close>

definition scene_root_of :: "app \<Rightarrow> entity option" where
  "scene_root_of a = (case app_scene a of None \<Rightarrow> None | Some sc \<Rightarrow> scene_root sc)"

text \<open>
  The deltas of a run of ticks after the first: each is the clamped difference to the
  reading before it, scaled by \<open>ts\<close>.
\<close>

fun deltas :: "(real \<Rightarrow> real \<Rightarrow> real \<Rightarrow> real) \<Rightarrow> real \<Rightarrow> real \<Rightarrow> real list \<Rightarrow> real list" where
  "deltas clamp ts prev [] = []"
| "deltas clamp ts prev (now # nows) =
     (clamp ((now - prev) / 1000) 0 (1 / 10) * ts) # deltas clamp ts now nows"

text \<open>The names of a hierarchy, parents before children, children in order.\<close>

fun entity_names :: "entity \<Rightarrow> string list" where
  "entity_names (Entity n cs) = n # concat (map entity_names cs)"

text \<open>Modelled from the spec: \<open>pc.ComponentSystem.initialize\<close> is not under the sources;
  it runs \<open>initialize\<close> over the whole hierarchy, one call per node.\<close>

definition ComponentSystem_initialize :: "entity \<Rightarrow> call list" where
  "ComponentSystem_initialize e = map Node_initialize (entity_names e)"

text \<open>Modelled from the spec: \<open>pc.ComponentSystem.postInitialize\<close> is not under the
  sources; it runs \<open>postInitialize\<close> over the whole hierarchy, one call per node.\<close>

definition ComponentSystem_postInitialize :: "entity \<Rightarrow> call list" where
  "ComponentSystem_postInitialize e = map Node_postInitialize (entity_names e)"

text \<open>An application with a scene of two nodes under an empty root, and no camera.\<close>

definition app_with_scene :: app where
  "app_with_scene =
     (Application False False False)
       \<lparr>app_root := Entity ''root'' [],
        app_scene := Some \<lparr>scene_name = ''level'',
                            scene_root = Some (Entity ''scene'' [Entity ''child'' []])\<rparr>\<rparr>"

subsection \<open>The canvas\<close>

definition vp0 :: "32 word \<Rightarrow> 32 word \<Rightarrow> 32 word \<Rightarrow> 32 word \<Rightarrow> viewport" where
  "vp0 W H cw ch =
     \<lparr>fillMode = FILLMODE_KEEP_ASPECT, resolutionMode = RESOLUTION_FIXED, isCocoonJS = False,
      devicePixelRatio = Num 1, innerWidth = W, innerHeight = H, canvas_width = cw,
      canvas_height = ch, vp_effects = []\<rparr>"

section \<open>Verification\<close>

subsection \<open>Preloading: the latch and the counters\<close>

lemma script_console_kind [simp]:
  "\<not> is_callback (script_console j err)" "\<not> is_progress (script_console j err)"
  by (simp_all add: script_console_def split: option.splits)

lemma latch_inv_done: "latch_inv s \<Longrightarrow> latch_inv (preload_done s)"
  by (auto simp: latch_inv_def preload_done_def callbacks_def Let_def)

lemma latch_inv_asset_settled: "latch_inv s \<Longrightarrow> latch_inv (asset_settled s)"
proof -
  assume a: "latch_inv s"
  let ?s2 = "s\<lparr>assets_p := inc_p (assets_p s),
      notices := notices s @ [PreloadProgress (real (count_n (s\<lparr>assets_p := inc_p (assets_p s)\<rparr>)) / real (total_n (s\<lparr>assets_p := inc_p (assets_p s)\<rparr>)))]\<rparr>"
  have "latch_inv ?s2" using a by (simp add: latch_inv_def callbacks_def)
  then have "latch_inv (preload_done ?s2)" by (rule latch_inv_done)
  then show ?thesis using \<open>latch_inv ?s2\<close> by (simp add: asset_settled_def Let_def)
qed

lemma latch_inv_script_settled: "latch_inv s \<Longrightarrow> latch_inv (script_settled j err s)"
proof -
  assume a: "latch_inv s"
  let ?s2 = "s\<lparr>notices := notices s @ [script_console j err],
       scripts_p := inc_p (scripts_p s)\<rparr>"
  have "latch_inv ?s2" using a by (simp add: latch_inv_def callbacks_def)
  then have "latch_inv (preload_done ?s2)" by (rule latch_inv_done)
  then show ?thesis using \<open>latch_inv ?s2\<close> by (simp add: script_settled_def Let_def)
qed

lemma latch_inv_on_event: "latch_inv s \<Longrightarrow> latch_inv (on_event e s)"
proof (cases e)
  case (AssetLoad i)
  assume a: "latch_inv s"
  then have "latch_inv (s\<lparr>load_once := load_once s - {i}\<rparr>)" by (simp add: latch_inv_def callbacks_def)
  then show ?thesis using a AssetLoad by (simp add: latch_inv_asset_settled)
next
  case (AssetError i)
  assume a: "latch_inv s"
  then have "latch_inv (s\<lparr>error_once := error_once s - {i}\<rparr>)" by (simp add: latch_inv_def callbacks_def)
  then show ?thesis using a AssetError by (simp add: latch_inv_asset_settled)
next
  case (ScriptLoaded j err)
  assume a: "latch_inv s"
  then show ?thesis using ScriptLoaded by (simp add: latch_inv_script_settled)
qed

lemma latch_inv_deliver: "latch_inv s \<Longrightarrow> latch_inv (deliver evs s)"
  unfolding deliver_def by (induction evs arbitrary: s) (simp_all add: latch_inv_on_event)

lemmas abbrs = a_count_def a_len_def s_count_def s_len_def

lemma fresh_kept:
  "fresh e' s \<Longrightarrow> item_of e' \<noteq> item_of e \<Longrightarrow> fresh e' (on_event e s)"
  by (cases e; cases e')
     (auto simp: asset_settled_def script_settled_def preload_done_def Let_def)

lemma on_event_lengths:
  "a_len (on_event e s) = a_len s \<and> s_len (on_event e s) = s_len s"
  by (cases e)
     (auto simp: abbrs asset_settled_def script_settled_def preload_done_def Let_def inc_p_def)

lemma on_event_counts:
  "fresh e s \<Longrightarrow>
   a_count (on_event e s) = a_count s + (if asset_event e then 1 else 0) \<and>
   s_count (on_event e s) = s_count s + (if asset_event e then 0 else 1)"
  by (cases e)
     (auto simp: abbrs asset_settled_def script_settled_def preload_done_def Let_def inc_p_def)

lemma on_event_notices:
  "fresh e s \<Longrightarrow> \<not> done_flag s \<Longrightarrow>
   \<exists>n. \<not> is_callback n \<and> is_progress n = asset_event e \<and>
     notices (on_event e s) =
       notices s @ [n] @ (if complete (on_event e s) then [Callback [] False] else []) \<and>
     done_flag (on_event e s) = complete (on_event e s) \<and>
     preloading (on_event e s) = (if complete (on_event e s) then False else preloading s)"
  by (cases e)
     (auto simp: complete_def abbrs asset_settled_def script_settled_def preload_done_def Let_def inc_p_def
        progress_done_def)

lemma deliver_Cons: "deliver (e # evs) s = deliver evs (on_event e s)"
  by (simp add: deliver_def)

lemma deliver_lengths: "a_len (deliver evs s) = a_len s \<and> s_len (deliver evs s) = s_len s"
  by (induction evs arbitrary: s) (simp_all add: deliver_def on_event_lengths)

lemma asset_settled_result:
  assumes "\<not> done_flag s"
  shows "a_count (asset_settled s) = a_count s + 1"
    and "a_len (asset_settled s) = a_len s"
    and "scripts_p (asset_settled s) = scripts_p s"
    and "load_once (asset_settled s) = load_once s"
    and "error_once (asset_settled s) = error_once s"
    and "script_requests (asset_settled s) = script_requests s"
    and "done_flag (asset_settled s) = complete (asset_settled s)"
    and "\<exists>n. is_progress n \<and> notices (asset_settled s) =
           notices s @ [n] @ (if complete (asset_settled s) then [Callback [] False] else [])"
    and "preloading (asset_settled s) = (if complete (asset_settled s) then False else preloading s)"
  using assms
  by (auto simp: complete_def abbrs asset_settled_def preload_done_def Let_def inc_p_def progress_done_def)

lemma filter_nth_length:
  "length (filter (\<lambda>i. P (xs ! i)) [0..<length xs]) = length (filter P xs)"
proof -
  have "filter P xs = filter P (map (\<lambda>i. xs ! i) [0..<length xs])" by (simp add: map_nth)
  also have "\<dots> = map (\<lambda>i. xs ! i) (filter (\<lambda>i. P (xs ! i)) [0..<length xs])"
    by (simp add: filter_map o_def)
  finally show ?thesis by simp
qed

lemma asset_event_item: "asset_event e = asset_item (item_of e)"
  by (cases e) simp_all

lemma asset_event_eq: "asset_event = (\<lambda>e. asset_item (item_of e))"
  by (rule ext) (rule asset_event_item)

lemma distinct_pending: "distinct (pending assets scripts)"
  by (auto simp: pending_def distinct_map inj_on_def)

lemma same_items_filter_length:
  assumes "distinct xs" "distinct ys" "set xs = set ys"
  shows "length (filter P xs) = length (filter P ys)"
proof -
  have "length (filter P xs) = card (set (filter P xs))"
    by (simp only: distinct_card[OF distinct_filter[OF assms(1)]])
  also have "\<dots> = card (set (filter P ys))" using assms(3) by simp
  also have "\<dots> = length (filter P ys)"
    by (simp only: distinct_card[OF distinct_filter[OF assms(2)]])
  finally show ?thesis .
qed

lemma fractions_length: "length (fractions s) = length (filter is_progress (notices s))"
proof -
  have "length (concat (map (\<lambda>n. case n of PreloadProgress f \<Rightarrow> [f] | _ \<Rightarrow> []) ns)) =
        length (filter is_progress ns)" for ns
    by (induction ns) (auto split: notice.splits)
  then show ?thesis by (simp add: fractions_def)
qed

lemma complete_count: "complete s \<Longrightarrow> count_n s = total_n s"
  by (simp add: complete_def abbrs count_n_def total_n_def)

subsection \<open>Preloading: the invariant of a batch\<close>

lemma J_event:
  assumes j: "J iss N c s (e # rem)" and i: "iss e"
  shows "J iss N c (on_event e s) rem"
proof -
  let ?s = "on_event e s"
  have d: "distinct (map item_of (e # rem))" using j by (simp add: J_def)
  have fr: "fresh e s" using j i by (simp add: J_def)
  have nd: "\<not> done_flag s" using j by (simp add: J_def)
  have ca: "a_count s + c + length (filter asset_event (e # rem)) = a_len s"
    and cs: "s_count s + length (filter (\<lambda>e. \<not> asset_event e) (e # rem)) = s_len s"
    using j by (simp_all add: J_def)
  obtain pre where pre: "notices s = pre" "length pre + c + length (e # rem) = N"
      "\<forall>n\<in>set pre. \<not> is_callback n"
      "length (filter is_progress pre) + c + length (filter asset_event (e # rem)) = a_len s"
    using j nd by (auto simp: J_def)
  have pl: "preloading s" using j nd by (simp add: J_def)
  note cnt = on_event_counts[OF fr]
  note len = on_event_lengths[of e s]
  have ca': "a_count ?s + c + length (filter asset_event rem) = a_len ?s"
    using ca cnt len by (simp split: if_splits)
  have cs': "s_count ?s + length (filter (\<lambda>e. \<not> asset_event e) rem) = s_len ?s"
    using cs cnt len by (simp split: if_splits)
  have sum: "length (filter asset_event rem) + length (filter (\<lambda>e. \<not> asset_event e) rem) = length rem"
    by (rule sum_length_filter_compl)
  have comp: "complete ?s = (c = 0 \<and> rem = [])"
    using ca' cs' sum by (auto simp: complete_def)
  obtain n where n: "\<not> is_callback n" "is_progress n = asset_event e"
      "notices ?s = notices s @ [n] @ (if complete ?s then [Callback [] False] else [])"
      "done_flag ?s = complete ?s"
      "preloading ?s = (if complete ?s then False else preloading s)"
    using on_event_notices[OF fr nd] by blast
  have f: "\<forall>x\<in>set rem. iss x \<longrightarrow> fresh x ?s"
  proof (intro ballI impI)
    fix x assume x: "x \<in> set rem" and ix: "iss x"
    have "item_of x \<noteq> item_of e" using d x by (metis distinct.simps(2) image_eqI list.simps(9) set_map)
    moreover have "fresh x s" using j x ix by (simp add: J_def)
    ultimately show "fresh x ?s" by (rule fresh_kept[rotated])
  qed
  have ex: "\<exists>p. notices ?s = p @ (if done_flag ?s then [Callback [] False] else []) \<and>
            length p + c + length rem = N \<and> (\<forall>n\<in>set p. \<not> is_callback n) \<and>
            length (filter is_progress p) + c + length (filter asset_event rem) = a_len ?s"
    using n pre len by (intro exI[of _ "pre @ [n]"]) (auto split: if_splits)
  show ?thesis
    unfolding J_def using d f ca' cs' n(4,5) comp pl ex by simp
qed

lemma J_deliver:
  "J iss N c s (evs @ rest) \<Longrightarrow> \<forall>e\<in>set evs. iss e \<Longrightarrow> J iss N c (deliver evs s) rest"
proof (induction evs arbitrary: s)
  case Nil
  then show ?case by (simp add: deliver_def)
next
  case (Cons e evs)
  have "J iss N c (on_event e s) (evs @ rest)"
    using J_event[of iss N c s e "evs @ rest"] Cons.prems by simp
  then show ?case using Cons.IH[of "on_event e s"] Cons.prems(2) by (simp add: deliver_Cons)
qed

lemma fresh_handlers:
  "load_once t = load_once s \<Longrightarrow> error_once t = error_once s \<Longrightarrow>
   script_requests t = script_requests s \<Longrightarrow> fresh e t = fresh e s"
  by (cases e) simp_all

lemma J_cached:
  assumes j: "J iss N (Suc c) s rem"
  shows "J iss N c (asset_settled s) rem"
proof -
  let ?s = "asset_settled s"
  have nd: "\<not> done_flag s" using j by (simp add: J_def)
  note r = asset_settled_result[OF nd]
  have ca: "a_count s + Suc c + length (filter asset_event rem) = a_len s"
    and cs: "s_count s + length (filter (\<lambda>e. \<not> asset_event e) rem) = s_len s"
    using j by (simp_all add: J_def)
  obtain pre where pre: "notices s = pre" "length pre + Suc c + length rem = N"
      "\<forall>n\<in>set pre. \<not> is_callback n"
      "length (filter is_progress pre) + Suc c + length (filter asset_event rem) = a_len s"
    using j nd by (auto simp: J_def)
  have pl: "preloading s" using j nd by (simp add: J_def)
  have sc: "s_count ?s = s_count s" "s_len ?s = s_len s" using r(3) by (simp_all add: abbrs)
  have ca': "a_count ?s + c + length (filter asset_event rem) = a_len ?s"
    using ca r(1,2) by simp
  have cs': "s_count ?s + length (filter (\<lambda>e. \<not> asset_event e) rem) = s_len ?s"
    using cs sc by simp
  have sum: "length (filter asset_event rem) + length (filter (\<lambda>e. \<not> asset_event e) rem) = length rem"
    by (rule sum_length_filter_compl)
  have comp: "complete ?s = (c = 0 \<and> rem = [])"
    using ca' cs' sum by (auto simp: complete_def)
  obtain n where n: "is_progress n"
      "notices ?s = notices s @ [n] @ (if complete ?s then [Callback [] False] else [])"
    using r(8) by blast
  have nc: "\<not> is_callback n" using n(1) by (cases n) simp_all
  have f: "\<forall>x\<in>set rem. iss x \<longrightarrow> fresh x ?s"
    using j fresh_handlers[OF r(4) r(5) r(6)] by (simp add: J_def)
  have ex: "\<exists>p. notices ?s = p @ (if done_flag ?s then [Callback [] False] else []) \<and>
            length p + c + length rem = N \<and> (\<forall>n\<in>set p. \<not> is_callback n) \<and>
            length (filter is_progress p) + c + length (filter asset_event rem) = a_len ?s"
    using n nc pre r(2,7) by (intro exI[of _ "pre @ [n]"]) (auto split: if_splits)
  have d: "distinct (map item_of rem)" using j by (simp add: J_def)
  show ?thesis
    unfolding J_def using d f ca' cs' r(7,9) comp pl ex by simp
qed

lemma J_handlers:
  assumes j: "J iss N c s rem"
    and t: "assets_p t = assets_p s" "scripts_p t = scripts_p s" "done_flag t = done_flag s"
      "preloading t = preloading s" "notices t = notices s"
    and f: "\<forall>e\<in>set rem. iss' e \<longrightarrow> fresh e t"
  shows "J iss' N c t rem"
  using j f unfolding J_def abbrs t by blast

lemma J_done:
  assumes j: "J iss N c s rem"
  shows "preload_done s = s"
proof (cases "done_flag s")
  case True
  then show ?thesis by (simp add: preload_done_def)
next
  case False
  then have "c \<noteq> 0 \<or> rem \<noteq> []" using j by (simp add: J_def)
  moreover have "length (filter asset_event rem) + length (filter (\<lambda>e. \<not> asset_event e) rem) = length rem"
    by (rule sum_length_filter_compl)
  ultimately have "a_count s \<noteq> a_len s \<or> s_count s \<noteq> s_len s"
    using j by (cases rem) (auto simp: J_def)
  then show ?thesis by (auto simp: preload_done_def progress_done_def abbrs)
qed

lemma first_events_append:
  "first_events A prev (xs @ ys) = first_events A prev xs @ first_events A (prev @ xs) ys"
  by (induction xs arbitrary: prev) simp_all

lemma first_events_subset: "set (first_events A prev evs) \<subseteq> set evs"
  by (induction evs arbitrary: prev) auto

lemma first_events_heard: "e \<in> set (first_events A prev evs) \<Longrightarrow> \<not> unheard A e"
  by (induction evs arbitrary: prev) (auto split: if_splits)

lemma repeated_asset: "repeated prev e \<Longrightarrow> asset_event e \<and> e \<in> set prev"
  by (cases e) simp_all

lemma unheard_asset: "unheard A e \<Longrightarrow> asset_event e"
  by (cases e) simp_all

lemma first_events_cover:
  "set evs \<subseteq> set (first_events A prev evs) \<union> set prev \<union> {e. unheard A e}"
proof (induction evs arbitrary: prev)
  case Nil
  then show ?case by simp
next
  case (Cons e evs)
  have "repeated prev e \<Longrightarrow> e \<in> set prev" using repeated_asset by blast
  then show ?case using Cons.IH[of "prev @ [e]"] by auto
qed

lemma first_events_set: "set (first_events A [] evs) = {e \<in> set evs. \<not> unheard A e}"
  using first_events_subset[of A "[]" evs] first_events_cover[of evs A "[]"]
    first_events_heard[of _ A "[]" evs]
  by auto

lemma dead_noop: "asset_event e \<Longrightarrow> dead e s \<Longrightarrow> on_event e s = s"
  by (cases e) simp_all

lemma dead_kept: "dead x s \<Longrightarrow> dead x (on_event e s)"
  by (cases e; cases x)
     (auto simp: asset_settled_def script_settled_def preload_done_def Let_def)

lemma dead_after: "asset_event e \<Longrightarrow> fresh e s \<Longrightarrow> dead e (on_event e s)"
  by (cases e)
     (auto simp: asset_settled_def script_settled_def preload_done_def Let_def)

lemma unheard_dead:
  assumes "unheard A e" and "\<forall>i\<in>load_once s \<union> error_once s. i < length A \<and> \<not> loaded (A ! i)"
  shows "dead e s"
proof (cases e)
  case (AssetLoad x)
  have "x \<notin> load_once s"
  proof
    assume "x \<in> load_once s"
    then have "x < length A \<and> \<not> loaded (A ! x)" using assms(2) by blast
    then show False using assms(1) AssetLoad by simp
  qed
  then show ?thesis using AssetLoad by simp
next
  case (AssetError x)
  have "x \<notin> error_once s"
  proof
    assume "x \<in> error_once s"
    then have "x < length A \<and> \<not> loaded (A ! x)" using assms(2) by blast
    then show False using assms(1) AssetError by simp
  qed
  then show ?thesis using AssetError by simp
next
  case (ScriptLoaded j err)
  then show ?thesis using assms(1) by simp
qed

lemma handlers_kept:
  "load_once (on_event e s) \<union> error_once (on_event e s) \<subseteq> load_once s \<union> error_once s"
  by (cases e)
     (auto simp: asset_settled_def script_settled_def preload_done_def Let_def)

lemma console_preload_done:
  "filter is_console (notices (preload_done s)) = filter is_console (notices s)"
  by (simp add: preload_done_def Let_def)

lemma console_asset_settled:
  "filter is_console (notices (asset_settled s)) = filter is_console (notices s)"
  by (simp add: asset_settled_def Let_def console_preload_done)

lemma console_script: "filter is_console [script_console j err] = console_of (ScriptLoaded j err)"
  by (cases err) (simp_all add: script_console_def truthy_def)

lemma console_on_event:
  "fresh e s \<Longrightarrow>
   filter is_console (notices (on_event e s)) = filter is_console (notices s) @ console_of e"
proof (cases e)
  case (ScriptLoaded j err)
  assume "fresh e s"
  then show ?thesis using ScriptLoaded console_script[of j err]
    by (simp add: script_settled_def Let_def console_preload_done)
qed (simp_all add: console_asset_settled)

lemma K_event:
  assumes k: "K A iss N c s prev (e # rem)" and i: "iss e \<or> unheard A e"
  shows "K A iss N c (on_event e s) (prev @ [e]) rem"
proof (cases "unheard A e \<or> repeated prev e")
  case True
  have a: "asset_event e" using True unheard_asset repeated_asset by blast
  have d: "dead e s"
  proof (cases "unheard A e")
    case True
    then show ?thesis using k unheard_dead[of A e s] by (simp add: K_def)
  next
    case False
    then have "e \<in> set prev" using True repeated_asset by blast
    then show ?thesis using k a by (simp add: K_def)
  qed
  have n: "on_event e s = s" using a d by (rule dead_noop)
  have c: "console_of e = []" using a by (cases e) simp_all
  show ?thesis using k True i a d c unfolding K_def n by auto
next
  case False
  then have ie: "iss e" using i by blast
  have j: "J iss N c s (e # first_events A (prev @ [e]) rem)" using k False by (simp add: K_def)
  have fr: "fresh e s" using j ie by (simp add: J_def)
  have j': "J iss N c (on_event e s) (first_events A (prev @ [e]) rem)"
    by (rule J_event[OF j ie])
  have p: "\<forall>x\<in>set (prev @ [e]). (iss x \<or> unheard A x) \<and> (asset_event x \<longrightarrow> dead x (on_event e s))"
    using k ie dead_kept dead_after[OF _ fr] by (auto simp: K_def)
  have r: "\<forall>i\<in>load_once (on_event e s) \<union> error_once (on_event e s). i < length A \<and> \<not> loaded (A ! i)"
    using k handlers_kept[of e s] unfolding K_def by blast
  have c: "filter is_console (notices (on_event e s)) = concat (map console_of (prev @ [e]))"
    using k console_on_event[OF fr] by (simp add: K_def)
  show ?thesis unfolding K_def using j' p r c by simp
qed

lemma K_deliver:
  "K A iss N c s prev (evs @ rest) \<Longrightarrow> \<forall>e\<in>set evs. iss e \<or> unheard A e \<Longrightarrow>
   K A iss N c (deliver evs s) (prev @ evs) rest"
proof (induction evs arbitrary: s prev)
  case Nil
  then show ?case by (simp add: deliver_def)
next
  case (Cons e evs)
  have "K A iss N c (on_event e s) (prev @ [e]) (evs @ rest)"
    using K_event[of A iss N c s prev e "evs @ rest"] Cons.prems by simp
  then show ?case
    using Cons.IH[of "on_event e s" "prev @ [e]"] Cons.prems(2) by (simp add: deliver_Cons)
qed

lemma K_cached:
  assumes k: "K A iss N (Suc c) s prev rem"
  shows "K A iss N c (asset_settled s) prev rem"
proof -
  have j: "J iss N (Suc c) s (first_events A prev rem)" using k by (simp add: K_def)
  have nd: "\<not> done_flag s" using j by (simp add: J_def)
  note r = asset_settled_result[OF nd]
  have d: "dead x (asset_settled s) = dead x s" for x
    using r(4,5) by (cases x) simp_all
  show ?thesis unfolding K_def using J_cached[OF j] k d r(4,5) console_asset_settled[of s]
    by (simp add: K_def)
qed

lemma K_handlers:
  assumes k: "K A iss N c s prev rem"
    and t: "assets_p t = assets_p s" "scripts_p t = scripts_p s" "done_flag t = done_flag s"
      "preloading t = preloading s" "notices t = notices s"
    and f: "\<forall>e\<in>set (first_events A prev rem). iss' e \<longrightarrow> fresh e t"
    and p: "\<forall>e\<in>set prev. (iss' e \<or> unheard A e) \<and> (asset_event e \<longrightarrow> dead e t)"
    and r: "\<forall>i\<in>load_once t \<union> error_once t. i < length A \<and> \<not> loaded (A ! i)"
  shows "K A iss' N c t prev rem"
proof -
  have j: "J iss N c s (first_events A prev rem)" using k by (simp add: K_def)
  have "J iss' N c t (first_events A prev rem)"
    by (rule J_handlers[OF j t f])
  then show ?thesis unfolding K_def using p r k t(5) by (simp add: K_def)
qed

lemma K_done: "K A iss N c s prev rem \<Longrightarrow> preload_done s = s"
  unfolding K_def using J_done by blast

lemma issued_mono: "issued i j e \<Longrightarrow> i \<le> i' \<Longrightarrow> j \<le> j' \<Longrightarrow> issued i' j' e"
  by (auto simp: issued_def split: item.splits)

lemma heard_item:
  assumes "\<not> unheard A e" and "item_of e = AssetItem k"
  shows "k < length A \<and> \<not> loaded (A ! k)"
  using assms by (cases e) auto

lemma unheard_index:
  assumes "unheard A e" and "asset_event e" and "i < length A" and "\<not> loaded (A ! i)"
  shows "item_of e \<noteq> AssetItem i"
  using assms by (cases e) auto

lemma K_assets_loop:
  assumes "K A (issued i 0) N (length (filter loaded as)) s prev (asset_syncs h as i @ rest)"
    and "\<forall>k<length as. \<forall>e\<in>set (during_asset h (i + k)). issued (Suc (i + k)) 0 e \<or> unheard A e"
    and "drop i A = as"
  shows "K A (issued (i + length as) 0) N 0 (assets_loop h as i s) (prev @ asset_syncs h as i) rest"
  using assms
proof (induction as arbitrary: i s prev)
  case Nil
  then show ?case by simp
next
  case (Cons a as)
  let ?rem = "asset_syncs h as (Suc i) @ rest"
  have il: "i < length A"
  proof (rule ccontr)
    assume "\<not> i < length A"
    then have "drop i A = []" by simp
    then show False using Cons.prems(3) by simp
  qed
  have ai: "A ! i = a" using Cons.prems(3) il by (metis nth_via_drop)
  have dr: "drop (Suc i) A = as" using Cons.prems(3) by (metis drop_Suc list.sel(3) tl_drop)
  have caus: "\<forall>k<length as. \<forall>e\<in>set (during_asset h (Suc i + k)).
      issued (Suc (Suc i + k)) 0 e \<or> unheard A e"
  proof (intro allI impI ballI)
    fix k e assume k: "k < length as" and e: "e \<in> set (during_asset h (Suc i + k))"
    have "Suc k < length (a # as)" using k by simp
    moreover have "e \<in> set (during_asset h (i + Suc k))" using e by simp
    ultimately have "issued (Suc (i + Suc k)) 0 e \<or> unheard A e" using Cons.prems(2) by blast
    then show "issued (Suc (Suc i + k)) 0 e \<or> unheard A e" by simp
  qed
  show ?case
  proof (cases "loaded a")
    case True
    have k0: "K A (issued i 0) N (Suc (length (filter loaded as))) s prev ?rem"
      using Cons.prems(1) True by simp
    have k1: "K A (issued i 0) N (length (filter loaded as)) (asset_settled s) prev ?rem"
      by (rule K_cached[OF k0])
    have f: "\<forall>e\<in>set (first_events A prev ?rem). issued (Suc i) 0 e \<longrightarrow> fresh e (asset_settled s)"
    proof (intro ballI impI)
      fix e assume e: "e \<in> set (first_events A prev ?rem)" and ie: "issued (Suc i) 0 e"
      have "\<not> unheard A e" using e by (rule first_events_heard)
      then have "item_of e \<noteq> AssetItem i" using heard_item[of A e i] ai True by auto
      then have "issued i 0 e" using ie by (auto simp: issued_def split: item.splits)
      then show "fresh e (asset_settled s)" using k1 e by (simp add: K_def J_def)
    qed
    have p: "\<forall>e\<in>set prev. (issued (Suc i) 0 e \<or> unheard A e) \<and>
        (asset_event e \<longrightarrow> dead e (asset_settled s))"
      using k1 issued_mono[of i 0 _ "Suc i" 0] by (auto simp: K_def)
    have r: "\<forall>i\<in>load_once (asset_settled s) \<union> error_once (asset_settled s).
        i < length A \<and> \<not> loaded (A ! i)"
      using k1 by (simp add: K_def)
    have k2: "K A (issued (Suc i) 0) N (length (filter loaded as)) (asset_settled s) prev ?rem"
      by (rule K_handlers[OF k1 refl refl refl refl refl f p r])
    show ?thesis using Cons.IH[OF k2 caus dr] True by simp
  next
    case False
    let ?s1 = "s\<lparr>load_once := insert i (load_once s), error_once := insert i (error_once s)\<rparr>"
    let ?all = "during_asset h i @ ?rem"
    have k0: "K A (issued i 0) N (length (filter loaded as)) s prev ?all"
      using Cons.prems(1) False by simp
    have f: "\<forall>e\<in>set (first_events A prev ?all). issued (Suc i) 0 e \<longrightarrow> fresh e ?s1"
    proof (intro ballI impI)
      fix e assume e: "e \<in> set (first_events A prev ?all)" and ie: "issued (Suc i) 0 e"
      show "fresh e ?s1"
      proof (cases "issued i 0 e")
        case True
        then have "fresh e s" using k0 e by (simp add: K_def J_def)
        then show ?thesis by (cases e) simp_all
      next
        case False
        then have "item_of e = AssetItem i" using ie by (auto simp: issued_def split: item.splits)
        then show ?thesis by (cases e) simp_all
      qed
    qed
    have p: "\<forall>e\<in>set prev. (issued (Suc i) 0 e \<or> unheard A e) \<and> (asset_event e \<longrightarrow> dead e ?s1)"
    proof (intro ballI conjI impI)
      fix e assume e: "e \<in> set prev"
      have ie: "issued i 0 e \<or> unheard A e" using k0 e by (simp add: K_def)
      then show "issued (Suc i) 0 e \<or> unheard A e" using issued_mono[of i 0 e "Suc i" 0] by auto
      assume a: "asset_event e"
      then have d: "dead e s" using k0 e by (simp add: K_def)
      have "item_of e \<noteq> AssetItem i"
      proof (cases "unheard A e")
        case True
        then show ?thesis using unheard_index[OF True a il] ai False by simp
      next
        case False
        then have "issued i 0 e" using ie by simp
        then show ?thesis by (auto simp: issued_def)
      qed
      then show "dead e ?s1" using d by (cases e) auto
    qed
    have r: "\<forall>k\<in>load_once ?s1 \<union> error_once ?s1. k < length A \<and> \<not> loaded (A ! k)"
      using k0 il ai False by (auto simp: K_def)
    have k1: "K A (issued (Suc i) 0) N (length (filter loaded as)) ?s1 prev ?all"
      by (rule K_handlers[OF k0 _ _ _ _ _ f p r]) simp_all
    have "\<forall>e\<in>set (during_asset h i). issued (Suc i) 0 e \<or> unheard A e"
      using Cons.prems(2) by fastforce
    then have k2: "K A (issued (Suc i) 0) N (length (filter loaded as))
        (deliver (during_asset h i) ?s1) (prev @ during_asset h i) ?rem"
      using K_deliver[of A "issued (Suc i) 0" N "length (filter loaded as)" ?s1 prev
          "during_asset h i" ?rem] k1
      by blast
    show ?thesis using Cons.IH[OF k2 caus dr] False by simp
  qed
qed

lemma K_scripts_loop:
  assumes "K A (issued n j) N 0 s prev (script_syncs h us j @ rest)"
    and "\<forall>k<length us. \<forall>e\<in>set (during_script h (j + k)). issued n (Suc (j + k)) e \<or> unheard A e"
  shows "K A (issued n (j + length us)) N 0 (scripts_loop h us j s) (prev @ script_syncs h us j) rest"
  using assms
proof (induction us arbitrary: j s prev)
  case Nil
  then show ?case by simp
next
  case (Cons u us)
  let ?s1 = "s\<lparr>script_requests := insert j (script_requests s)\<rparr>"
  let ?rem = "script_syncs h us (Suc j) @ rest"
  let ?all = "during_script h j @ ?rem"
  have caus: "\<forall>k<length us. \<forall>e\<in>set (during_script h (Suc j + k)).
      issued n (Suc (Suc j + k)) e \<or> unheard A e"
  proof (intro allI impI ballI)
    fix k e assume k: "k < length us" and e: "e \<in> set (during_script h (Suc j + k))"
    have "Suc k < length (u # us)" using k by simp
    moreover have "e \<in> set (during_script h (j + Suc k))" using e by simp
    ultimately have "issued n (Suc (j + Suc k)) e \<or> unheard A e" using Cons.prems(2) by blast
    then show "issued n (Suc (Suc j + k)) e \<or> unheard A e" by simp
  qed
  have k0: "K A (issued n j) N 0 s prev ?all" using Cons.prems(1) by simp
  have f: "\<forall>e\<in>set (first_events A prev ?all). issued n (Suc j) e \<longrightarrow> fresh e ?s1"
  proof (intro ballI impI)
    fix e assume e: "e \<in> set (first_events A prev ?all)" and ie: "issued n (Suc j) e"
    show "fresh e ?s1"
    proof (cases "issued n j e")
      case True
      then have "fresh e s" using k0 e by (simp add: K_def J_def)
      then show ?thesis by (cases e) simp_all
    next
      case False
      then have "item_of e = ScriptItem j" using ie by (auto simp: issued_def split: item.splits)
      then show ?thesis by (cases e) simp_all
    qed
  qed
  have p: "\<forall>e\<in>set prev. (issued n (Suc j) e \<or> unheard A e) \<and> (asset_event e \<longrightarrow> dead e ?s1)"
  proof (intro ballI conjI impI)
    fix e assume e: "e \<in> set prev"
    have ie: "issued n j e \<or> unheard A e" using k0 e by (simp add: K_def)
    then show "issued n (Suc j) e \<or> unheard A e" using issued_mono[of n j e n "Suc j"] by auto
    assume a: "asset_event e"
    then have "dead e s" using k0 e by (simp add: K_def)
    then show "dead e ?s1" by (cases e) simp_all
  qed
  have r: "\<forall>k\<in>load_once ?s1 \<union> error_once ?s1. k < length A \<and> \<not> loaded (A ! k)"
    using k0 by (simp add: K_def)
  have k1: "K A (issued n (Suc j)) N 0 ?s1 prev ?all"
    by (rule K_handlers[OF k0 _ _ _ _ _ f p r]) simp_all
  have "\<forall>e\<in>set (during_script h j). issued n (Suc j) e \<or> unheard A e"
    using Cons.prems(2) by fastforce
  then have k2: "K A (issued n (Suc j)) N 0 (deliver (during_script h j) ?s1)
      (prev @ during_script h j) ?rem"
    using K_deliver[of A "issued n (Suc j)" N 0 ?s1 prev "during_script h j" ?rem] k1 by blast
  show ?case using Cons.IH[OF k2 caus] by simp
qed

subsection \<open>Preloading: the whole of \<open>preload\<close>\<close>

lemma latch_inv_assets_loop: "latch_inv s \<Longrightarrow> latch_inv (assets_loop h as i s)"
proof (induction as arbitrary: i s)
  case Nil then show ?case by simp
next
  case (Cons a as)
  have "latch_inv (s\<lparr>load_once := insert i (load_once s), error_once := insert i (error_once s)\<rparr>)"
    using Cons.prems by (simp add: latch_inv_def callbacks_def)
  then show ?case using Cons by (simp add: latch_inv_asset_settled latch_inv_deliver)
qed

lemma latch_inv_scripts_loop: "latch_inv s \<Longrightarrow> latch_inv (scripts_loop h us i s)"
proof (induction us arbitrary: i s)
  case Nil then show ?case by simp
next
  case (Cons u us)
  have "latch_inv (s\<lparr>script_requests := insert i (script_requests s)\<rparr>)"
    using Cons.prems by (simp add: latch_inv_def callbacks_def)
  then show ?case using Cons by (simp add: latch_inv_deliver)
qed

lemma preload_done_lengths:
  "a_len (preload_done s) = a_len s \<and> s_len (preload_done s) = s_len s"
  by (simp add: preload_done_def abbrs Let_def)

lemma asset_settled_lengths:
  "a_len (asset_settled s) = a_len s \<and> s_len (asset_settled s) = s_len s"
  by (simp add: asset_settled_def preload_done_def abbrs Let_def inc_p_def)

lemma assets_loop_lengths:
  "a_len (assets_loop h as i s) = a_len s \<and> s_len (assets_loop h as i s) = s_len s"
proof (induction as arbitrary: i s)
  case Nil then show ?case by simp
next
  case (Cons a as)
  show ?case
    by (simp add: Cons.IH asset_settled_lengths deliver_lengths) (simp add: abbrs)
qed

lemma scripts_loop_lengths:
  "a_len (scripts_loop h us i s) = a_len s \<and> s_len (scripts_loop h us i s) = s_len s"
proof (induction us arbitrary: i s)
  case Nil then show ?case by simp
next
  case (Cons u us)
  show ?case by (simp add: Cons.IH deliver_lengths) (simp add: abbrs)
qed

lemma s_init_lengths: "a_len (s_init assets scripts) = length assets"
  "s_len (s_init assets scripts) = length scripts"
  by (simp_all add: s_init_def abbrs Progress_def)

lemma s_mid_lengths: "a_len (s_mid h assets scripts) = length assets"
  "s_len (s_mid h assets scripts) = length scripts"
  by (simp_all add: s_mid_def assets_loop_lengths preload_done_lengths s_init_lengths)

lemma preload_eq:
  "preload h assets scripts =
     (if scripts \<noteq> [] then scripts_loop h scripts 0 (s_mid h assets scripts)
      else preload_done (s_mid h assets scripts))"
proof -
  have pl: "p_length (assets_p (s_init assets scripts)) = length assets"
    by (simp add: s_init_def Progress_def)
  have s1: "(if p_length (assets_p (s_init assets scripts)) \<noteq> 0
             then assets_loop h assets 0 (s_init assets scripts)
             else preload_done (s_init assets scripts)) = s_mid h assets scripts"
    by (simp add: s_mid_def pl)
  have sl: "p_length (scripts_p (s_mid h assets scripts)) = length scripts"
    using s_mid_lengths(2)[of h assets scripts] by (simp add: s_len_def)
  have "preload h assets scripts =
     (if p_length (scripts_p (s_mid h assets scripts)) \<noteq> 0
      then scripts_loop h scripts 0 (s_mid h assets scripts)
      else preload_done (s_mid h assets scripts))"
    unfolding preload_def Let_def s_init_def[symmetric] s1 ..
  then show ?thesis by (simp add: sl)
qed

lemma preload_lengths: "a_len (preload h assets scripts) = length assets"
  "s_len (preload h assets scripts) = length scripts"
  by (simp_all add: preload_eq scripts_loop_lengths preload_done_lengths s_mid_lengths)

lemma latch_inv_preload: "latch_inv (preload h assets scripts)"
proof -
  have 0: "latch_inv (s_init assets scripts)" by (simp add: latch_inv_def callbacks_def s_init_def)
  have 1: "latch_inv (s_mid h assets scripts)"
    unfolding s_mid_def using latch_inv_assets_loop[OF 0] latch_inv_done[OF 0] by presburger
  show ?thesis
    unfolding preload_eq using latch_inv_scripts_loop[OF 1] latch_inv_done[OF 1] by presburger
qed

lemma callbacks_at_most_once: "callbacks (run_preload h assets scripts) \<le> 1"
  using latch_inv_deliver[OF latch_inv_preload, of "afterwards h" h assets scripts]
  by (simp add: run_preload_def latch_inv_def split: if_splits)

lemma settles_counts:
  assumes "settles_each_once h assets scripts"
  shows "length (filter asset_event (first_events assets [] (all_events h assets scripts))) =
           length (filter (\<lambda>a. \<not> loaded a) assets)"
    and "length (filter (\<lambda>e. \<not> asset_event e) (first_events assets [] (all_events h assets scripts))) =
           length scripts"
proof -
  let ?evs = "first_events assets [] (all_events h assets scripts)"
  have d: "distinct (map item_of ?evs)" and s: "set (map item_of ?evs) = set (pending assets scripts)"
    using assms by (simp_all add: settles_each_once_def)
  have "length (filter asset_event ?evs) = length (filter asset_item (map item_of ?evs))"
    by (simp add: filter_map o_def asset_event_eq)
  also have "\<dots> = length (filter asset_item (pending assets scripts))"
    by (rule same_items_filter_length[OF d distinct_pending s])
  also have "\<dots> = length (filter (\<lambda>i. \<not> loaded (assets ! i)) [0..<length assets])"
    by (simp add: pending_def filter_map o_def)
  also have "\<dots> = length (filter (\<lambda>a. \<not> loaded a) assets)"
    by (rule filter_nth_length[of "\<lambda>a. \<not> loaded a" assets])
  finally show "length (filter asset_event ?evs) = length (filter (\<lambda>a. \<not> loaded a) assets)" .
  have "length (filter (\<lambda>e. \<not> asset_event e) ?evs) =
        length (filter (\<lambda>x. \<not> asset_item x) (map item_of ?evs))"
    by (simp add: filter_map o_def asset_event_eq)
  also have "\<dots> = length (filter (\<lambda>x. \<not> asset_item x) (pending assets scripts))"
    by (rule same_items_filter_length[OF d distinct_pending s])
  also have "\<dots> = length scripts"
    by (simp add: pending_def filter_map o_def)
  finally show "length (filter (\<lambda>e. \<not> asset_event e) ?evs) = length scripts" .
qed

lemma settles_items:
  assumes "settles_each_once h assets scripts" and "e \<in> set (all_events h assets scripts)"
  shows "issued (length assets) (length scripts) e \<or> unheard assets e"
proof (cases "unheard assets e")
  case True
  then show ?thesis by simp
next
  case False
  then have "e \<in> set (first_events assets [] (all_events h assets scripts))"
    using assms(2) by (simp add: first_events_set)
  then have "item_of e \<in> set (pending assets scripts)"
    using assms(1) by (auto simp: settles_each_once_def)
  then have "(\<exists>i. item_of e = AssetItem i \<and> i < length assets) \<or>
             (\<exists>j. item_of e = ScriptItem j \<and> j < length scripts)"
    by (auto simp: pending_def)
  then show ?thesis by (auto simp: issued_def)
qed

lemma K_init:
  assumes h: "settles_each_once h assets scripts"
    and pos: "assets \<noteq> [] \<or> scripts \<noteq> []"
  shows "K assets (issued 0 0) (length assets + length scripts) (length (filter loaded assets))
           (s_init assets scripts) [] (all_events h assets scripts)"
proof -
  let ?all = "first_events assets [] (all_events h assets scripts)"
  note c = settles_counts[OF h]
  have split: "length (filter loaded assets) + length (filter (\<lambda>a. \<not> loaded a) assets) = length assets"
    by (rule sum_length_filter_compl)
  have split_e: "length (filter asset_event ?all) + length (filter (\<lambda>e. \<not> asset_event e) ?all) = length ?all"
    by (rule sum_length_filter_compl)
  have d: "distinct (map item_of ?all)" using h by (simp add: settles_each_once_def)
  have ne: "\<not> (length (filter loaded assets) = 0 \<and> ?all = [])"
  proof
    assume a: "length (filter loaded assets) = 0 \<and> ?all = []"
    then have "length assets = 0" "length scripts = 0" using c split by simp_all
    then show False using pos by simp
  qed
  have f: "\<forall>e\<in>set ?all. issued 0 0 e \<longrightarrow> fresh e (s_init assets scripts)"
    by (auto simp: issued_def split: item.splits)
  have i: "a_count (s_init assets scripts) = 0" "s_count (s_init assets scripts) = 0"
    "a_len (s_init assets scripts) = length assets" "s_len (s_init assets scripts) = length scripts"
    "\<not> done_flag (s_init assets scripts)" "preloading (s_init assets scripts)"
    "notices (s_init assets scripts) = []"
    by (simp_all add: s_init_def abbrs Progress_def)
  have r: "load_once (s_init assets scripts) = {}" "error_once (s_init assets scripts) = {}"
    by (simp_all add: s_init_def)
  have "J (issued 0 0) (length assets + length scripts) (length (filter loaded assets))
           (s_init assets scripts) ?all"
    unfolding J_def using d f i c split split_e ne by simp
  then show ?thesis by (simp add: K_def i(7) r)
qed

lemma K_mid:
  assumes h: "settles_each_once h assets scripts"
    and pos: "assets \<noteq> [] \<or> scripts \<noteq> []"
  shows "K assets (issued (length assets) 0) (length assets + length scripts) 0
           (s_mid h assets scripts) (asset_syncs h assets 0)
           (script_syncs h scripts 0 @ afterwards h)"
proof (cases "assets = []")
  case True
  have "K assets (issued 0 0) (length assets + length scripts) 0 (s_init assets scripts) []
          (script_syncs h scripts 0 @ afterwards h)"
    using K_init[OF h pos] True by (simp add: all_events_def)
  then show ?thesis using True K_done by (simp add: s_mid_def)
next
  case False
  let ?rest = "script_syncs h scripts 0 @ afterwards h"
  have k0: "K assets (issued 0 0) (length assets + length scripts) (length (filter loaded assets))
      (s_init assets scripts) [] (asset_syncs h assets 0 @ ?rest)"
    using K_init[OF h pos] by (simp add: all_events_def)
  have caus: "\<forall>k<length assets. \<forall>e\<in>set (during_asset h (0 + k)).
      issued (Suc (0 + k)) 0 e \<or> unheard assets e"
    using h by (simp add: settles_each_once_def causal_def)
  have dr: "drop 0 assets = assets" by simp
  have "K assets (issued (0 + length assets) 0) (length assets + length scripts) 0
          (assets_loop h assets 0 (s_init assets scripts)) ([] @ asset_syncs h assets 0) ?rest"
    by (rule K_assets_loop[OF k0 caus dr])
  then show ?thesis using False by (simp add: s_mid_def)
qed

lemma preload_empty: "notices (preload h [] []) = [Callback [] False] \<and>
   complete (preload h [] []) \<and> \<not> preloading (preload h [] [])"
  by (simp add: preload_def Progress_def preload_done_def progress_done_def Let_def complete_def abbrs)

lemma K_empty:
  assumes h: "settles_each_once h [] []"
  shows "K [] iss 0 0 (preload h [] []) [] (afterwards h)"
proof -
  have "set (map item_of (first_events [] [] (all_events h [] []))) = {}"
    using h by (simp add: settles_each_once_def pending_def)
  then have e: "first_events [] [] (afterwards h) = []" by (simp add: all_events_def)
  have s: "preload h [] [] =
      \<lparr>assets_p = Progress 0, scripts_p = Progress 0, done_flag = True, preloading = False,
        load_once = {}, error_once = {}, script_requests = {}, notices = [Callback [] False]\<rparr>"
    by (simp add: preload_def Progress_def preload_done_def progress_done_def Let_def)
  have "J iss 0 0 (preload h [] []) []"
    unfolding s J_def by (simp add: abbrs Progress_def)
  then show ?thesis unfolding K_def e unfolding s by simp
qed

lemma K_preload:
  assumes h: "settles_each_once h assets scripts"
  shows "K assets (issued (length assets) (length scripts)) (length assets + length scripts) 0
           (preload h assets scripts) (asset_syncs h assets 0 @ script_syncs h scripts 0)
           (afterwards h)"
proof (cases "assets \<noteq> [] \<or> scripts \<noteq> []")
  case False
  then show ?thesis using K_empty[of h] h by simp
next
  case pos: True
  show ?thesis
  proof (cases "scripts = []")
    case True
    have "K assets (issued (length assets) 0) (length assets + length scripts) 0
             (s_mid h assets scripts) (asset_syncs h assets 0) (afterwards h)"
      using K_mid[OF h pos] True by simp
    then show ?thesis using True K_done by (simp add: preload_eq)
  next
    case False
    have caus: "\<forall>k<length scripts. \<forall>e\<in>set (during_script h (0 + k)).
        issued (length assets) (Suc (0 + k)) e \<or> unheard assets e"
      using h by (simp add: settles_each_once_def causal_def)
    have "K assets (issued (length assets) (0 + length scripts)) (length assets + length scripts) 0
            (scripts_loop h scripts 0 (s_mid h assets scripts))
            (asset_syncs h assets 0 @ script_syncs h scripts 0) (afterwards h)"
      by (rule K_scripts_loop[OF K_mid[OF h pos] caus])
    then show ?thesis using False by (simp add: preload_eq)
  qed
qed

lemma run_preload_settled:
  assumes h: "settles_each_once h assets scripts"
  shows "(\<exists>pre. notices (run_preload h assets scripts) = pre @ [Callback [] False] \<and>
           length pre = length assets + length scripts \<and>
           (\<forall>n\<in>set pre. \<not> is_callback n) \<and>
           length (filter is_progress pre) = length assets) \<and>
         complete (run_preload h assets scripts) \<and>
         \<not> preloading (run_preload h assets scripts) \<and>
         filter is_console (notices (run_preload h assets scripts)) =
           concat (map console_of (all_events h assets scripts))"
proof -
  let ?s = "run_preload h assets scripts"
  have iss: "\<forall>e\<in>set (afterwards h). issued (length assets) (length scripts) e \<or> unheard assets e"
    using settles_items[OF h] by (simp add: all_events_def)
  have k: "K assets (issued (length assets) (length scripts)) (length assets + length scripts) 0 ?s
      (all_events h assets scripts) []"
    unfolding run_preload_def
    using K_deliver[of _ _ _ _ "preload h assets scripts"
        "asset_syncs h assets 0 @ script_syncs h scripts 0" "afterwards h" "[]"]
      K_preload[OF h] iss
    by (simp add: all_events_def)
  then have j: "J (issued (length assets) (length scripts)) (length assets + length scripts) 0 ?s []"
    by (simp add: K_def)
  have l: "a_len ?s = length assets"
    by (simp add: run_preload_def deliver_lengths preload_lengths)
  have df: "done_flag ?s" using j by (simp add: J_def)
  obtain pre where pre: "notices ?s = pre @ [Callback [] False]"
      "length pre = length assets + length scripts" "\<forall>n\<in>set pre. \<not> is_callback n"
      "length (filter is_progress pre) = a_len ?s"
    using j df by (auto simp: J_def)
  have c: "complete ?s" using j by (simp add: J_def complete_def)
  have p: "\<not> preloading ?s" using j df by (simp add: J_def)
  have con: "filter is_console (notices ?s) = concat (map console_of (all_events h assets scripts))"
    using k by (simp add: K_def)
  show ?thesis using pre l c p con by auto
qed

lemma done_flag_kept: "done_flag s \<Longrightarrow> done_flag (on_event e s)"
  by (cases e)
     (auto simp: asset_settled_def script_settled_def preload_done_def Let_def)

lemma done_flag_deliver: "done_flag s \<Longrightarrow> done_flag (deliver evs s)"
  unfolding deliver_def by (induction evs arbitrary: s) (simp_all add: done_flag_kept)

lemma callbacks_after_completion:
  assumes "settles_each_once h assets scripts"
  shows "callbacks (deliver extra (run_preload h assets scripts)) = 1"
proof -
  let ?s = "run_preload h assets scripts"
  obtain pre where pre: "notices ?s = pre @ [Callback [] False]" "\<forall>n\<in>set pre. \<not> is_callback n"
    using run_preload_settled[OF assms] by blast
  have "filter is_callback pre = []" using pre(2) by (simp add: filter_empty_conv)
  then have c: "callbacks ?s = 1" by (simp add: callbacks_def pre(1))
  have l: "latch_inv ?s"
    using latch_inv_deliver[OF latch_inv_preload, of "afterwards h" h assets scripts]
    by (simp add: run_preload_def)
  have d: "done_flag ?s"
  proof (rule ccontr)
    assume "\<not> done_flag ?s"
    then have "callbacks ?s = 0" using l unfolding latch_inv_def by simp
    then show False using c by simp
  qed
  have d': "done_flag (deliver extra ?s)" using d by (rule done_flag_deliver)
  have "latch_inv (deliver extra ?s)"
    using latch_inv_deliver[OF l, of extra] by simp
  then show ?thesis using d' unfolding latch_inv_def by simp
qed

subsection \<open>Preloading: the claims\<close>

text \<open>Unfolding the model on a concrete batch.\<close>

lemmas preload_eval =
  run_preload_def later_def preload_def deliver_def Let_def Progress_def preload_done_def
  progress_done_def asset_settled_def script_settled_def script_console_def truthy_def
  inc_p_def count_n_def total_n_def callbacks_def fractions_def unloaded_asset_def
  loaded_asset_def

lemmas settles_eval =
  settles_each_once_def all_events_def pending_def causal_def issued_def later_def
  loaded_asset_def unloaded_asset_def upt_rec

lemma preload_cached_and_synchronous:
  "notices (run_preload
      \<lparr>during_asset = (\<lambda>i. if i = 1 then [AssetLoad 1] else []),
        during_script = (\<lambda>j. [ScriptLoaded j None]), afterwards = []\<rparr>
      [loaded_asset ''a'', unloaded_asset ''b''] [''s.js'']) =
     [PreloadProgress (1 / 3), PreloadProgress (2 / 3), ConsoleLog 0, Callback [] False]"
  by (simp add: preload_eval)

lemma preload_repeated_load_ignored:
  "notices (run_preload (later [AssetLoad 0, AssetLoad 0, AssetLoad 1])
      [unloaded_asset ''a'', unloaded_asset ''b''] []) =
     [PreloadProgress (1 / 2), PreloadProgress 1, Callback [] False]"
  by (simp add: preload_eval)

text \<open>
  C1, as the code has it. The callback handed to \<open>preload\<close> is never invoked more than
  once, whatever the host delivers. When every item settles exactly once (each script is
  called back once; each asset that is not loaded yet fires \<open>load\<close> or \<open>error\<close>, not both,
  any number of times; events of assets that were already loaded or are not in the batch
  may arrive as well), at any time after it has been asked for (while \<open>preload\<close> is still
  running or later), in any order and with any outcome, the callback is invoked exactly
  once and it is the last thing that happens: the notices are the settlement notices of
  all \<open>N\<close> items (those of the assets that were already loaded included), none of them a
  callback, followed by the callback. Whatever arrives after that, duplicates included,
  does not invoke it again. For an empty batch the callback is invoked before \<open>preload\<close>
  returns.
\<close>

theorem preload_callback_once:
  "callbacks (run_preload h assets scripts) \<le> 1 \<and>
   (settles_each_once h assets scripts \<longrightarrow>
      callbacks (run_preload h assets scripts) = 1 \<and>
      (\<exists>pre. notices (run_preload h assets scripts) = pre @ [Callback [] False] \<and>
             length pre = length assets + length scripts \<and>
             (\<forall>n\<in>set pre. \<not> is_callback n)) \<and>
      callbacks (deliver extra (run_preload h assets scripts)) = 1) \<and>
   notices (preload h [] []) = [Callback [] False]"
proof -
  have 1: "callbacks (run_preload h assets scripts) \<le> 1"
    by (rule callbacks_at_most_once)
  have 2: "callbacks (run_preload h assets scripts) = 1 \<and>
      (\<exists>pre. notices (run_preload h assets scripts) = pre @ [Callback [] False] \<and>
             length pre = length assets + length scripts \<and>
             (\<forall>n\<in>set pre. \<not> is_callback n))"
    if s: "settles_each_once h assets scripts"
  proof -
    obtain pre where pre: "notices (run_preload h assets scripts) = pre @ [Callback [] False]"
        "length pre = length assets + length scripts" "\<forall>n\<in>set pre. \<not> is_callback n"
      using run_preload_settled[OF s] by blast
    have "filter is_callback pre = []" using pre(3) by (simp add: filter_empty_conv)
    then have "callbacks (run_preload h assets scripts) = 1"
      by (simp add: callbacks_def pre(1))
    then show ?thesis using pre by blast
  qed
  have 3: "notices (preload h [] []) = [Callback [] False]"
    using preload_empty[of h] by simp
  have 4: "callbacks (deliver extra (run_preload h assets scripts)) = 1"
    if s: "settles_each_once h assets scripts"
    by (rule callbacks_after_completion[OF s])
  show ?thesis using 1 2 3 4 by blast
qed

theorem preload_callback_once_witness:
  "settles_each_once
     \<lparr>during_asset = (\<lambda>i. if i = 1 then [AssetLoad 1] else []), during_script = (\<lambda>j. []),
       afterwards = [AssetLoad 1, AssetLoad 0, ScriptLoaded 1 None, AssetError 2, AssetError 2,
                     ScriptLoaded 0 None]\<rparr>
     [loaded_asset ''a'', unloaded_asset ''b'', unloaded_asset ''c''] [''s.js'', ''t.js''] \<and>
   callbacks (run_preload
     \<lparr>during_asset = (\<lambda>i. if i = 1 then [AssetLoad 1] else []), during_script = (\<lambda>j. []),
       afterwards = [AssetLoad 1, AssetLoad 0, ScriptLoaded 1 None, AssetError 2, AssetError 2,
                     ScriptLoaded 0 None]\<rparr>
     [loaded_asset ''a'', unloaded_asset ''b'', unloaded_asset ''c''] [''s.js'', ''t.js'']) = 1 \<and>
   (\<exists>pre. notices (run_preload
       \<lparr>during_asset = (\<lambda>i. if i = 1 then [AssetLoad 1] else []), during_script = (\<lambda>j. []),
         afterwards = [AssetLoad 1, AssetLoad 0, ScriptLoaded 1 None, AssetError 2, AssetError 2,
                       ScriptLoaded 0 None]\<rparr>
       [loaded_asset ''a'', unloaded_asset ''b'', unloaded_asset ''c''] [''s.js'', ''t.js'']) =
          pre @ [Callback [] False] \<and>
          length pre = 5 \<and> (\<forall>n\<in>set pre. \<not> is_callback n)) \<and>
   callbacks (deliver [ScriptLoaded 0 None, AssetLoad 2] (run_preload
     \<lparr>during_asset = (\<lambda>i. if i = 1 then [AssetLoad 1] else []), during_script = (\<lambda>j. []),
       afterwards = [AssetLoad 1, AssetLoad 0, ScriptLoaded 1 None, AssetError 2, AssetError 2,
                     ScriptLoaded 0 None]\<rparr>
     [loaded_asset ''a'', unloaded_asset ''b'', unloaded_asset ''c''] [''s.js'', ''t.js''])) = 1"
proof -
  let ?h = "\<lparr>during_asset = (\<lambda>i. if i = 1 then [AssetLoad 1] else []), during_script = (\<lambda>j. []),
       afterwards = [AssetLoad 1, AssetLoad 0, ScriptLoaded 1 None, AssetError 2, AssetError 2,
                     ScriptLoaded 0 None]\<rparr>"
  let ?as = "[loaded_asset ''a'', unloaded_asset ''b'', unloaded_asset ''c'']"
  let ?us = "[''s.js'', ''t.js'']"
  have s: "settles_each_once ?h ?as ?us"
    by (simp add: settles_eval; auto)
  note a = preload_callback_once[of ?h ?as ?us "[ScriptLoaded 0 None, AssetLoad 2]"]
  have 1: "callbacks (run_preload ?h ?as ?us) = 1"
    and 2: "\<exists>pre. notices (run_preload ?h ?as ?us) = pre @ [Callback [] False] \<and>
          length pre = length ?as + length ?us \<and> (\<forall>n\<in>set pre. \<not> is_callback n)"
    and 3: "callbacks (deliver [ScriptLoaded 0 None, AssetLoad 2] (run_preload ?h ?as ?us)) = 1"
    using a s by blast+
  have 4: "length ?as + length ?us = 5" by simp
  show ?thesis using s 1 2 3 unfolding 4 by blast
qed

text \<open>
  C1 as stated fails when an item is counted twice. With two scripts and no asset, the
  loader calling back twice for the first script makes the callback run before the second
  script has settled. With one more asset, the same duplicate makes the script counter
  pass its length, and the callback is never invoked although every item has settled.
  With two assets, the first one firing \<open>load\<close> and then \<open>error\<close> runs both of its
  handlers, and the callback runs before the second asset has settled; its settlement then
  reports the fraction \<open>3/2\<close>.
\<close>

theorem preload_duplicate_settlement_counterexample:
  "notices (run_preload (later [ScriptLoaded 0 None, ScriptLoaded 0 None, ScriptLoaded 1 None])
      [] [''a.js'', ''b.js'']) =
     [ConsoleLog 0, ConsoleLog 0, Callback [] False, ConsoleLog 1] \<and>
   callbacks (run_preload
      (later [ScriptLoaded 0 None, ScriptLoaded 0 None, ScriptLoaded 1 None, AssetLoad 0])
      [unloaded_asset ''m''] [''a.js'', ''b.js'']) = 0 \<and>
   notices (run_preload (later [AssetLoad 0, AssetError 0, AssetLoad 1])
      [unloaded_asset ''m'', unloaded_asset ''n''] []) =
     [PreloadProgress (1 / 2), PreloadProgress 1, Callback [] False, PreloadProgress (3 / 2)]"
  by (simp add: preload_eval)

text \<open>
  C3 fails on the code: the callback of a script request increments the script counter
  but fires no \<open>preload:progress\<close>. With one asset and one script, the asset settling
  first, the only fraction reported is \<open>1/2\<close>; the batch then completes without a report
  of \<open>1\<close>.
\<close>

theorem preload_script_settlement_no_progress:
  "notices (run_preload (later [AssetLoad 0, ScriptLoaded 0 None])
      [unloaded_asset ''m''] [''a.js'']) =
     [PreloadProgress (1 / 2), ConsoleLog 0, Callback [] False] \<and>
   fractions (run_preload (later [AssetLoad 0, ScriptLoaded 0 None])
      [unloaded_asset ''m''] [''a.js'']) = [1 / 2]"
  by (simp add: preload_eval)

text \<open>
  C7, as the code has it. Whatever the outcomes (a failed asset arrives as \<open>AssetError\<close>,
  a failed script as \<open>ScriptLoaded\<close> with an error), when every item settles once the batch
  completes: a failure counts like a success (all items are counted, every asset has
  fired a progress event), the callback is invoked once, last, without an argument, and
  it finds \<open>preloading\<close> already off. The console holds exactly what the script callbacks
  wrote, in the order of their arrival: the error of each script that failed is written
  with \<open>console.error\<close>, and a batch without scripts writes nothing, whatever fails.
\<close>

theorem preload_failure_not_escalated:
  "settles_each_once h assets scripts \<Longrightarrow>
   filter is_callback (notices (run_preload h assets scripts)) = [Callback [] False] \<and>
   last (notices (run_preload h assets scripts)) = Callback [] False \<and>
   count_n (run_preload h assets scripts) = total_n (run_preload h assets scripts) \<and>
   length (fractions (run_preload h assets scripts)) = length assets \<and>
   \<not> preloading (run_preload h assets scripts) \<and>
   filter is_console (notices (run_preload h assets scripts)) =
     concat (map console_of (all_events h assets scripts)) \<and>
   (\<forall>j m. ScriptLoaded j (Some m) \<in> set (all_events h assets scripts) \<and> m \<noteq> [] \<longrightarrow>
      ConsoleError m \<in> set (notices (run_preload h assets scripts))) \<and>
   (scripts = [] \<longrightarrow> filter is_console (notices (run_preload h assets scripts)) = [])"
proof -
  assume s: "settles_each_once h assets scripts"
  let ?s = "run_preload h assets scripts"
  obtain pre where pre: "notices ?s = pre @ [Callback [] False]"
      "\<forall>n\<in>set pre. \<not> is_callback n" "length (filter is_progress pre) = length assets"
    using run_preload_settled[OF s] by blast
  have c: "complete ?s" and p: "\<not> preloading ?s"
    and con: "filter is_console (notices ?s) = concat (map console_of (all_events h assets scripts))"
    using run_preload_settled[OF s] by blast+
  have "filter is_callback pre = []" using pre(2) by (simp add: filter_empty_conv)
  then have 1: "filter is_callback (notices ?s) = [Callback [] False]"
    by (simp add: pre(1))
  have 2: "last (notices ?s) = Callback [] False"
    by (simp add: pre(1))
  have 3: "count_n ?s = total_n ?s"
    using c by (rule complete_count)
  have 4: "length (fractions ?s) = length assets"
    by (simp add: fractions_length pre(1) pre(3))
  have 5: "ConsoleError m \<in> set (notices ?s)"
    if e: "ScriptLoaded j (Some m) \<in> set (all_events h assets scripts) \<and> m \<noteq> []" for j m
  proof -
    have "ConsoleError m \<in> set (console_of (ScriptLoaded j (Some m)))" using e by simp
    then have "ConsoleError m \<in> set (concat (map console_of (all_events h assets scripts)))"
      using e by (auto intro: bexI[of _ "ScriptLoaded j (Some m)"])
    then have "ConsoleError m \<in> set (filter is_console (notices ?s))" using con by simp
    then show ?thesis by simp
  qed
  have 6: "filter is_console (notices ?s) = []" if n: "scripts = []"
  proof -
    have "console_of e = []" if e: "e \<in> set (all_events h assets scripts)" for e
    proof -
      have "issued (length assets) 0 e \<or> unheard assets e" using settles_items[OF s e] n by simp
      then show ?thesis by (cases e) (simp_all add: issued_def)
    qed
    then have "concat (map console_of (all_events h assets scripts)) = []" by simp
    then show ?thesis using con by simp
  qed
  show ?thesis using 1 2 3 4 5 6 p con by blast
qed

theorem preload_failure_not_escalated_witness:
  "settles_each_once
     (later [AssetLoad 2, AssetError 0, ScriptLoaded 0 (Some ''404''), AssetLoad 1])
     [unloaded_asset ''a'', unloaded_asset ''b'', unloaded_asset ''c''] [''s.js''] \<and>
   ScriptLoaded 0 (Some ''404'') \<in>
     set (all_events (later [AssetLoad 2, AssetError 0, ScriptLoaded 0 (Some ''404''), AssetLoad 1])
       [unloaded_asset ''a'', unloaded_asset ''b'', unloaded_asset ''c''] [''s.js'']) \<and>
   filter is_callback (notices (run_preload
     (later [AssetLoad 2, AssetError 0, ScriptLoaded 0 (Some ''404''), AssetLoad 1])
     [unloaded_asset ''a'', unloaded_asset ''b'', unloaded_asset ''c''] [''s.js''])) =
     [Callback [] False] \<and>
   \<not> preloading (run_preload
     (later [AssetLoad 2, AssetError 0, ScriptLoaded 0 (Some ''404''), AssetLoad 1])
     [unloaded_asset ''a'', unloaded_asset ''b'', unloaded_asset ''c''] [''s.js'']) \<and>
   filter is_console (notices (run_preload
     (later [AssetLoad 2, AssetError 0, ScriptLoaded 0 (Some ''404''), AssetLoad 1])
     [unloaded_asset ''a'', unloaded_asset ''b'', unloaded_asset ''c''] [''s.js''])) =
     [ConsoleError ''404''] \<and>
   ConsoleError ''404'' \<in> set (notices (run_preload
     (later [AssetLoad 2, AssetError 0, ScriptLoaded 0 (Some ''404''), AssetLoad 1])
     [unloaded_asset ''a'', unloaded_asset ''b'', unloaded_asset ''c''] [''s.js''])) \<and>
   settles_each_once (later [AssetError 0, AssetLoad 1])
     [unloaded_asset ''a'', unloaded_asset ''b''] [] \<and>
   filter is_console (notices (run_preload (later [AssetError 0, AssetLoad 1])
     [unloaded_asset ''a'', unloaded_asset ''b''] [])) = []"
proof -
  let ?h = "later [AssetLoad 2, AssetError 0, ScriptLoaded 0 (Some ''404''), AssetLoad 1]"
  let ?as = "[unloaded_asset ''a'', unloaded_asset ''b'', unloaded_asset ''c'']"
  have s: "settles_each_once ?h ?as [''s.js'']"
    by (simp add: settles_eval; auto)
  have t: "settles_each_once (later [AssetError 0, AssetLoad 1])
     [unloaded_asset ''a'', unloaded_asset ''b''] []"
    by (simp add: settles_eval; auto)
  have e: "all_events ?h ?as [''s.js''] =
     [AssetLoad 2, AssetError 0, ScriptLoaded 0 (Some ''404''), AssetLoad 1]"
    by (simp add: all_events_def later_def unloaded_asset_def)
  note a = preload_failure_not_escalated[OF s]
  note b = preload_failure_not_escalated[OF t]
  have m: "ScriptLoaded 0 (Some ''404'') \<in> set (all_events ?h ?as [''s.js''])"
    unfolding e by simp
  have n: "ScriptLoaded 0 (Some ''404'') \<in> set (all_events ?h ?as [''s.js'']) \<and> ''404'' \<noteq> []"
    using m by simp
  have 1: "ConsoleError ''404'' \<in> set (notices (run_preload ?h ?as [''s.js'']))"
    using a n by blast
  have 2: "filter is_console (notices (run_preload ?h ?as [''s.js''])) = [ConsoleError ''404'']"
    using a unfolding e by simp
  have 3: "filter is_console (notices (run_preload (later [AssetError 0, AssetLoad 1])
     [unloaded_asset ''a'', unloaded_asset ''b''] [])) = []"
    using b by blast
  have 4: "filter is_callback (notices (run_preload ?h ?as [''s.js''])) = [Callback [] False]"
    and 5: "\<not> preloading (run_preload ?h ?as [''s.js''])"
    using a by blast+
  show ?thesis using s t m 1 2 3 4 5 by blast
qed

text \<open>
  C7 as stated fails for the logging of a failed asset: the \<open>error\<close> handler that
  \<open>preload\<close> registers on an asset counts the asset and fires the progress event, and
  writes nothing. A batch of one asset that fails completes with an empty console.
\<close>

theorem preload_asset_failure_not_logged_counterexample:
  "notices (run_preload (later [AssetError 0]) [unloaded_asset ''m''] []) =
     [PreloadProgress 1, Callback [] False] \<and>
   filter is_console (notices (run_preload (later [AssetError 0]) [unloaded_asset ''m''] [])) = []"
  by (simp add: preload_eval)

subsection \<open>Configuration: the claim\<close>

lemma configure_no_libraries:
  "configure_callbacks (configure (HttpResponse (props_with []))) = [None]"
  by code_simp

lemma configure_all_loaded:
  "configure_callbacks (run_configure (HttpResponse (props_with [''a.js'', ''b.js'']))
     [LibraryLoaded 1 None, LibraryLoaded 0 None]) = [None]"
  by code_simp

text \<open>
  C2 fails on the code: the library callback reports every error at once and keeps no
  record of it. With two libraries of which the first fails and the second loads, the
  callback passed to \<open>configure\<close> is invoked twice, first with the error and then with
  \<open>null\<close>; when both fail it is invoked with each error in turn.
\<close>

theorem configure_callback_twice:
  "configure_callbacks (run_configure (HttpResponse (props_with [''a.js'', ''b.js'']))
     [LibraryLoaded 0 (Some ''404''), LibraryLoaded 1 None]) = [Some ''404'', None] \<and>
   configure_callbacks (run_configure (HttpResponse (props_with [''a.js'', ''b.js'']))
     [LibraryLoaded 0 (Some ''404''), LibraryLoaded 1 (Some ''500'')]) = [Some ''404'', Some ''500'']"
  by code_simp

subsection \<open>The frame loop: one tick\<close>

lemma emit_fields [simp]:
  "cameras (emit c a) = cameras a" "app_scene (emit c a) = app_scene a"
  "calls (emit c a) = calls a @ [c]" "app_time (emit c a) = app_time a"
  "timeScale (emit c a) = timeScale a" "inTools (emit c a) = inTools a"
  "controller (emit c a) = controller a" "mouse (emit c a) = mouse a"
  "keyboard (emit c a) = keyboard a" "gamepads (emit c a) = gamepads a"
  "app_root (emit c a) = app_root a"
  by (simp_all add: emit_def)

lemma render_loop_calls:
  "len = length (cameras a) \<Longrightarrow> i \<le> len \<Longrightarrow>
   render_loop i len a = a\<lparr>calls := calls a @ camera_calls (app_scene a) (drop i (cameras a))\<rparr>"
proof (induction i len a rule: render_loop.induct)
  case (1 i len a)
  show ?case
  proof (cases "i < len")
    case True
    let ?c = "cameras a ! i"
    let ?a3 = "emit (FrameEnd ?c) (emit (Renderer_render (app_scene (emit (FrameBegin ?c) a)) ?c)
                 (emit (FrameBegin ?c) a))"
    have ih: "render_loop (Suc i) len ?a3 =
        ?a3\<lparr>calls := calls ?a3 @ camera_calls (app_scene ?a3) (drop (Suc i) (cameras ?a3))\<rparr>"
      using "1.IH"[OF True refl refl refl] "1.prems" True by simp
    have d: "drop i (cameras a) = ?c # drop (Suc i) (cameras a)"
      using True "1.prems" by (simp add: Cons_nth_drop_Suc)
    have "render_loop i len a = render_loop (Suc i) len ?a3"
      using True by (simp add: render_loop.simps[of i len a] Let_def)
    also have "\<dots> = a\<lparr>calls := calls a @ camera_calls (app_scene a) (drop i (cameras a))\<rparr>"
      unfolding ih d by (simp add: camera_calls_def emit_def)
    finally show ?thesis .
  next
    case False
    then have "render_loop i len a = a" by (simp add: render_loop.simps[of i len a])
    then show ?thesis using False "1.prems" by (simp add: camera_calls_def)
  qed
qed

lemma app_update_calls:
  "app_update dt a = a\<lparr>calls := calls a @
      [ComponentSystem_fixedUpdate (1 / 60) (inTools a), ComponentSystem_update dt (inTools a),
       ComponentSystem_postUpdate dt (inTools a), Fire_update dt] @ input_calls dt a\<rparr>"
  by (simp add: app_update_def Let_def input_calls_def emit_def)

lemma app_render_calls:
  "app_render a = a\<lparr>calls := calls a @ [SyncHierarchy] @ camera_calls (app_scene a) (cameras a)\<rparr>"
proof -
  have "render_loop 0 (length (cameras a)) (emit SyncHierarchy a) =
        (emit SyncHierarchy a)\<lparr>calls := calls (emit SyncHierarchy a) @
           camera_calls (app_scene (emit SyncHierarchy a)) (drop 0 (cameras (emit SyncHierarchy a)))\<rparr>"
    by (rule render_loop_calls) simp_all
  then show ?thesis by (simp add: app_render_def emit_def)
qed

lemma tick_dt_calls: "tick_dt clamp now (a\<lparr>calls := cs\<rparr>) = tick_dt clamp now a"
  by (simp add: tick_dt_def)

lemma tick_result:
  "tick clamp now a = a\<lparr>app_time := now, calls := calls a @
      [RequestAnimationFrame,
       ComponentSystem_fixedUpdate (1 / 60) (inTools a),
       ComponentSystem_update (tick_dt clamp now a) (inTools a),
       ComponentSystem_postUpdate (tick_dt clamp now a) (inTools a),
       Fire_update (tick_dt clamp now a)] @ input_calls (tick_dt clamp now a) a @
      [SyncHierarchy] @ camera_calls (app_scene a) (cameras a)\<rparr>"
  by (simp add: tick_def Let_def app_update_calls app_render_calls input_calls_def
        emit_def tick_dt_calls)

lemma dts_of_append: "dts_of (xs @ ys) = dts_of xs @ dts_of ys"
  by (simp add: dts_of_def)

lemma dts_of_Nil: "dts_of [] = []"
  by (simp add: dts_of_def)

lemma dts_of_Cons:
  "dts_of (c # cs) = (case c of ComponentSystem_update dt _ \<Rightarrow> [dt] | _ \<Rightarrow> []) @ dts_of cs"
  by (simp add: dts_of_def)

lemma dts_of_input_calls: "dts_of (input_calls dt a) = []"
  by (simp add: dts_of_def input_calls_def)

lemma dts_of_camera_calls: "dts_of (camera_calls sc cs) = []"
  by (induction cs) (simp_all add: dts_of_def camera_calls_def)

lemma update_dts_tick: "update_dts (tick clamp now a) = update_dts a @ [tick_dt clamp now a]"
proof -
  have "update_dts (tick clamp now a) = dts_of (calls (tick clamp now a))"
    by (simp add: update_dts_def dts_of_def)
  also have "\<dots> = dts_of (calls a) @ [tick_dt clamp now a]"
    by (simp add: tick_result dts_of_append dts_of_Cons dts_of_Nil dts_of_input_calls
          dts_of_camera_calls)
  finally show ?thesis by (simp add: update_dts_def dts_of_def)
qed

lemma tick_calls_result:
  "tick_calls clamp now a =
     [RequestAnimationFrame,
      ComponentSystem_fixedUpdate (1 / 60) (inTools a),
      ComponentSystem_update (tick_dt clamp now a) (inTools a),
      ComponentSystem_postUpdate (tick_dt clamp now a) (inTools a),
      Fire_update (tick_dt clamp now a)] @ input_calls (tick_dt clamp now a) a @
     [SyncHierarchy] @ camera_calls (app_scene a) (cameras a)"
  by (simp add: tick_calls_def tick_result)

lemma ticks_Cons: "ticks clamp (now # nows) a = ticks clamp nows (tick clamp now a)"
  by (simp add: ticks_def)

lemma ticks_deltas_from:
  "app_time a \<noteq> 0 \<Longrightarrow> \<forall>n\<in>set nows. n \<noteq> 0 \<Longrightarrow>
   update_dts (ticks clamp nows a) = update_dts a @ deltas clamp (timeScale a) (app_time a) nows"
proof (induction nows arbitrary: a)
  case Nil
  then show ?case by (simp add: ticks_def)
next
  case (Cons now nows)
  have t: "app_time (tick clamp now a) = now" "timeScale (tick clamp now a) = timeScale a"
    by (simp_all add: tick_result)
  have "update_dts (ticks clamp nows (tick clamp now a)) =
        update_dts (tick clamp now a) @ deltas clamp (timeScale a) now nows"
    using Cons.IH[of "tick clamp now a"] Cons.prems t by simp
  then show ?case using Cons.prems
    by (simp add: ticks_Cons update_dts_tick tick_dt_def Let_def js_or_def)
qed

lemma ticks_deltas:
  assumes "\<forall>n\<in>set (now # nows). n \<noteq> 0"
  shows "update_dts (ticks clamp (now # nows) (Application kb ms gp)) =
         clamp 0 0 (1 / 10) # deltas clamp 1 now nows"
proof -
  let ?a = "tick clamp now (Application kb ms gp)"
  have t: "app_time ?a = now" "timeScale ?a = 1"
    by (simp_all add: tick_result) (simp add: Application_def)
  have u: "update_dts ?a = [clamp 0 0 (1 / 10)]"
    by (simp add: update_dts_tick tick_dt_def Let_def js_or_def)
       (simp add: Application_def update_dts_def)
  have "update_dts (ticks clamp nows ?a) = update_dts ?a @ deltas clamp (timeScale ?a) (app_time ?a) nows"
    by (rule ticks_deltas_from) (use assms t in simp_all)
  then show ?thesis using t u by (simp add: ticks_Cons)
qed

lemma tick_dt_bounds:
  "0 \<le> timeScale a \<Longrightarrow>
   0 \<le> tick_dt math_clamp now a \<and> tick_dt math_clamp now a \<le> timeScale a / 10"
proof -
  assume ts: "0 \<le> timeScale a"
  let ?c = "math_clamp ((now - js_or (app_time a) now) / 1000) 0 (1 / 10)"
  have c: "0 \<le> ?c \<and> ?c \<le> 1 / 10" by (simp add: math_clamp_def)
  have "0 \<le> ?c * timeScale a" using c ts by simp
  moreover have "?c * timeScale a \<le> (1 / 10) * timeScale a"
    using c ts by (intro mult_right_mono) simp_all
  ultimately show ?thesis by (simp add: tick_dt_def Let_def)
qed

lemma tick_fields:
  "app_time (tick clamp now a) = now" "timeScale (tick clamp now a) = timeScale a"
  by (simp_all add: tick_result)

lemma update_dts_Application:
  "update_dts (Application kb ms gp) = []"
  "update_dts ((Application kb ms gp)\<lparr>timeScale := ts\<rparr>) = []"
  "app_time (Application kb ms gp) = 0"
  "timeScale (Application kb ms gp) = 1"
  by (simp_all add: update_dts_def Application_def)

lemma ticks_example:
  "update_dts (ticks math_clamp [1000, 1016, 6000, 6001, 5000]
     ((Application False False False)\<lparr>timeScale := 2\<rparr>)) = [0, 4 / 125, 1 / 5, 1 / 500, 0]"
  by (simp add: ticks_def update_dts_tick tick_fields update_dts_Application tick_dt_def
      js_or_def math_clamp_def Let_def)

text \<open>
  C4, as the code has it. The delta that \<open>tick\<close> passes on to the update phase is the
  clamp of the elapsed time to \<open>[0, 0.1]\<close> seconds, multiplied by \<open>timeScale\<close> after the
  clamp. The elapsed time is measured from the stored \<open>_time\<close> when that is not \<open>0\<close>, and
  is \<open>0\<close> when \<open>_time\<close> is \<open>0\<close>; \<open>tick\<close> then stores \<open>now\<close> in \<open>_time\<close>. So the first tick
  after construction has the raw delta \<open>0\<close>, and in a run of ticks whose clock readings
  are all different from \<open>0\<close> every later tick measures from the reading of the tick
  before it.
\<close>

theorem tick_delta:
  "update_dts (tick clamp now a) =
     update_dts a @
     [clamp ((now - (if app_time a = 0 then now else app_time a)) / 1000) 0 (1 / 10) *
      timeScale a] \<and>
   app_time (tick clamp now a) = now \<and>
   update_dts (tick clamp now (Application kb ms gp)) = [clamp 0 0 (1 / 10)] \<and>
   ((\<forall>n\<in>set (now # nows). n \<noteq> 0) \<longrightarrow>
      update_dts (ticks clamp (now # nows) (Application kb ms gp)) =
        clamp 0 0 (1 / 10) # deltas clamp 1 now nows)"
proof -
  have 1: "update_dts (tick clamp now a) =
     update_dts a @
     [clamp ((now - (if app_time a = 0 then now else app_time a)) / 1000) 0 (1 / 10) *
      timeScale a]"
    by (simp add: update_dts_tick tick_dt_def Let_def js_or_def)
  have 2: "app_time (tick clamp now a) = now" by (simp add: tick_result)
  have 3: "update_dts (tick clamp now (Application kb ms gp)) = [clamp 0 0 (1 / 10)]"
    by (simp add: update_dts_tick tick_dt_def Let_def js_or_def)
       (simp add: Application_def update_dts_def)
  have 4: "update_dts (ticks clamp (now # nows) (Application kb ms gp)) =
        clamp 0 0 (1 / 10) # deltas clamp 1 now nows"
    if "\<forall>n\<in>set (now # nows). n \<noteq> 0"
    using that by (rule ticks_deltas)
  show ?thesis using 1 2 3 4 by blast
qed

theorem tick_delta_witness:
  "0 \<notin> set [1000, 1016, 6000 :: real] \<and>
   update_dts (ticks math_clamp [1000, 1016, 6000] (Application False False False)) =
     [0, 2 / 125, 1 / 10]"
proof -
  have h: "\<forall>n\<in>set (1000 # [1016, 6000 :: real]). n \<noteq> 0" by simp
  show ?thesis
    using h tick_delta[of math_clamp 1000 "Application False False False" False False False
        "[1016, 6000]"]
    by (simp add: math_clamp_def)
qed

text \<open>
  C4 as stated, for every tick, fails after a tick whose clock reading is \<open>0\<close>: that tick
  stores \<open>0\<close>, which the next tick takes for no timestamp at all. With the readings \<open>0\<close> and
  \<open>5000\<close> the second delta is \<open>0\<close>, where the clamp of the five seconds since the stored
  timestamp is \<open>0.1\<close>.
\<close>

theorem tick_zero_reading_counterexample:
  "update_dts (ticks math_clamp [0, 5000] (Application False False False)) = [0, 0] \<and>
   app_time (tick math_clamp 0 (Application False False False)) = 0 \<and>
   math_clamp ((5000 - 0) / 1000) 0 (1 / 10) * timeScale (Application False False False) = 1 / 10"
  by (simp add: ticks_def update_dts_tick tick_fields update_dts_Application tick_dt_def
      js_or_def math_clamp_def Let_def)

text \<open>
  C6. The calls of one tick, in order: the request for the next frame, the fixed-step
  update with step \<open>1/60\<close>, the update and the post-update with the scaled delta, the
  \<open>update\<close> event, the polling of the input devices that are present, the synchronisation
  of the hierarchy, and then for each camera, in the order of the array, begin-frame,
  render, end-frame.
\<close>

theorem tick_phase_order:
  "calls (tick clamp now a) =
     calls a @
     [RequestAnimationFrame,
      ComponentSystem_fixedUpdate (1 / 60) (inTools a),
      ComponentSystem_update (tick_dt clamp now a) (inTools a),
      ComponentSystem_postUpdate (tick_dt clamp now a) (inTools a),
      Fire_update (tick_dt clamp now a)] @
     (if controller a then [Controller_update (tick_dt clamp now a)] else []) @
     (if mouse a then [Mouse_update (tick_dt clamp now a)] else []) @
     (if keyboard a then [Keyboard_update (tick_dt clamp now a)] else []) @
     (if gamepads a then [Gamepads_update (tick_dt clamp now a)] else []) @
     [SyncHierarchy] @
     concat (map (\<lambda>c. [FrameBegin c, Renderer_render (app_scene a) c, FrameEnd c]) (cameras a))"
  by (simp add: tick_result input_calls_def camera_calls_def)

subsection \<open>The frame loop: \<open>start\<close>\<close>

lemma attach_scene_result:
  "attach_scene a =
     (case scene_root_of a of
        None \<Rightarrow> a
      | Some r \<Rightarrow> a\<lparr>app_root := add_child (app_root a) r, calls := calls a @ [AddChild r]\<rparr>)"
  by (simp add: attach_scene_def scene_root_of_def emit_def split: option.splits)

lemma attach_scene_fields:
  "inTools (attach_scene a) = inTools a" "controller (attach_scene a) = controller a"
  "mouse (attach_scene a) = mouse a" "keyboard (attach_scene a) = keyboard a"
  "gamepads (attach_scene a) = gamepads a" "cameras (attach_scene a) = cameras a"
  "app_scene (attach_scene a) = app_scene a" "app_time (attach_scene a) = app_time a"
  "timeScale (attach_scene a) = timeScale a"
  by (simp_all add: attach_scene_result split: option.splits)

lemma tick_dt_attach: "tick_dt clamp now (attach_scene a) = tick_dt clamp now a"
  by (simp add: tick_dt_def attach_scene_fields)

lemma start_result:
  "start initialize postInitialize clamp now a =
     tick clamp now
       ((attach_scene a)\<lparr>calls := calls (attach_scene a) @ [ConsoleLogText ''INITIALIZE''] @
           initialize (app_root (attach_scene a)) @ postInitialize (app_root (attach_scene a))\<rparr>)"
  by (simp add: start_def Let_def emit_def emit_all_def)

lemma entity_names_add_child:
  "entity_names (add_child e child) = entity_names e @ entity_names child"
  by (cases e) simp

text \<open>
  C5. \<open>start\<close> first attaches the root of the scene, when there is a scene with a root,
  as the last child of the application's root; it then hands that hierarchy to
  \<open>initialize\<close>, after that to \<open>postInitialize\<close>, and only then runs the first tick, whose
  first call is the request for the next frame. Every call made by \<open>initialize\<close> thus
  precedes every call made by \<open>postInitialize\<close>.
\<close>

theorem start_order:
  "calls (start initialize postInitialize clamp now a) =
     calls a @
     (case scene_root_of a of None \<Rightarrow> [] | Some r \<Rightarrow> [AddChild r]) @
     [ConsoleLogText ''INITIALIZE''] @
     initialize (app_root (attach_scene a)) @
     postInitialize (app_root (attach_scene a)) @
     tick_calls clamp now a \<and>
   app_root (attach_scene a) =
     (case scene_root_of a of None \<Rightarrow> app_root a | Some r \<Rightarrow> add_child (app_root a) r) \<and>
   hd (tick_calls clamp now a) = RequestAnimationFrame"
proof -
  let ?b = "(attach_scene a)\<lparr>calls := calls (attach_scene a) @ [ConsoleLogText ''INITIALIZE''] @
           initialize (app_root (attach_scene a)) @ postInitialize (app_root (attach_scene a))\<rparr>"
  have c: "calls (attach_scene a) =
      calls a @ (case scene_root_of a of None \<Rightarrow> [] | Some r \<Rightarrow> [AddChild r])"
    by (simp add: attach_scene_result split: option.splits)
  have "calls (tick clamp now ?b) = calls ?b @ tick_calls clamp now a"
    by (simp add: tick_result tick_calls_result input_calls_def attach_scene_fields
        tick_dt_calls tick_dt_attach)
  then have 1: "calls (start initialize postInitialize clamp now a) =
     calls a @
     (case scene_root_of a of None \<Rightarrow> [] | Some r \<Rightarrow> [AddChild r]) @
     [ConsoleLogText ''INITIALIZE''] @
     initialize (app_root (attach_scene a)) @
     postInitialize (app_root (attach_scene a)) @
     tick_calls clamp now a"
    by (simp add: start_result c)
  have 2: "app_root (attach_scene a) =
     (case scene_root_of a of None \<Rightarrow> app_root a | Some r \<Rightarrow> add_child (app_root a) r)"
    by (simp add: attach_scene_result split: option.splits)
  have 3: "hd (tick_calls clamp now a) = RequestAnimationFrame"
    by (simp add: tick_calls_result)
  show ?thesis using 1 2 3 by blast
qed

lemma start_three_nodes:
  "calls (start ComponentSystem_initialize ComponentSystem_postInitialize math_clamp 5000
            app_with_scene) =
     [AddChild (Entity ''scene'' [Entity ''child'' []]),
      ConsoleLogText ''INITIALIZE'',
      Node_initialize ''root'', Node_initialize ''scene'', Node_initialize ''child'',
      Node_postInitialize ''root'', Node_postInitialize ''scene'', Node_postInitialize ''child'',
      RequestAnimationFrame,
      ComponentSystem_fixedUpdate (1 / 60) False, ComponentSystem_update 0 False,
      ComponentSystem_postUpdate 0 False, Fire_update 0, SyncHierarchy]"
  by (simp add: start_result tick_result attach_scene_result scene_root_of_def app_with_scene_def
      Application_def ComponentSystem_initialize_def ComponentSystem_postInitialize_def
      input_calls_def camera_calls_def tick_dt_def js_or_def math_clamp_def)

subsection \<open>The canvas: rounding to a double\<close>

lemma rne_error: "\<bar>of_int (rne y) - y\<bar> \<le> 1 / 2"
  unfolding rne_def Let_def by (simp; linarith)

lemma quantum_down:
  assumes "2 ^ 52 * q / 2 ^ m \<le> x" and "x < 2 ^ 53 * q" and "m \<le> n"
    and "- 1074 + int m \<le> e" and "0 < q"
  shows "case quantum n x q e of (q', e') \<Rightarrow>
           2 ^ 52 * q' \<le> x \<and> x < 2 ^ 53 * q' \<and> 0 < q' \<and> e' \<le> e"
  using assms
proof (induction n arbitrary: q m e)
  case 0
  then show ?case by (simp add: quantum.simps[of 0])
next
  case (Suc n)
  show ?case
  proof (cases "x < 2 ^ 52 * q")
    case True
    have "m \<noteq> 0"
    proof
      assume "m = 0"
      then show False using Suc.prems(1) True by simp
    qed
    then obtain k where k: "m = Suc k" by (cases m) simp_all
    have e: "- 1074 < e" using Suc.prems(4) k by simp
    have 1: "2 ^ 52 * (q / 2) / 2 ^ k \<le> x" using Suc.prems(1) k by simp
    have 2: "x < 2 ^ 53 * (q / 2)" using True by simp
    have 3: "k \<le> n" using Suc.prems(3) k by simp
    have 4: "- 1074 + int k \<le> e - 1" using Suc.prems(4) k by simp
    have 5: "0 < q / 2" using Suc.prems(5) by simp
    have "case quantum n x (q / 2) (e - 1) of (q', e') \<Rightarrow>
           2 ^ 52 * q' \<le> x \<and> x < 2 ^ 53 * q' \<and> 0 < q' \<and> e' \<le> e - 1"
      by (rule Suc.IH[OF 1 2 3 4 5])
    then show ?thesis using True e by (auto simp: quantum.simps[of "Suc n" x q e])
  next
    case False
    then show ?thesis using Suc.prems(2,5) by (simp add: quantum.simps[of "Suc n" x q e])
  qed
qed

lemma quantum_up:
  assumes "2 ^ 52 * q \<le> x" and "x < 2 ^ 53 * q * 2 ^ m" and "m \<le> n" and "0 < q"
  shows "case quantum n x q e of (q', e') \<Rightarrow>
           2 ^ 52 * q' \<le> x \<and> x < 2 ^ 53 * q' \<and> 0 < q' \<and> e' \<le> e + int m"
  using assms
proof (induction n arbitrary: q m e)
  case 0
  then show ?case by (simp add: quantum.simps[of 0])
next
  case (Suc n)
  show ?case
  proof (cases "2 ^ 53 * q \<le> x")
    case True
    have "m \<noteq> 0"
    proof
      assume "m = 0"
      then show False using Suc.prems(2) True by simp
    qed
    then obtain k where k: "m = Suc k" by (cases m) simp_all
    have 1: "2 ^ 52 * (2 * q) \<le> x" using True by simp
    have 2: "x < 2 ^ 53 * (2 * q) * 2 ^ k" using Suc.prems(2) k by simp
    have 3: "k \<le> n" using Suc.prems(3) k by simp
    have 4: "0 < 2 * q" using Suc.prems(4) by simp
    have n: "\<not> x < 2 ^ 52 * q" using Suc.prems(1) by simp
    have "case quantum n x (2 * q) (e + 1) of (q', e') \<Rightarrow>
           2 ^ 52 * q' \<le> x \<and> x < 2 ^ 53 * q' \<and> 0 < q' \<and> e' \<le> e + 1 + int k"
      by (rule Suc.IH[OF 1 2 3 4])
    then show ?thesis using True n k by (auto simp: quantum.simps[of "Suc n" x q e])
  next
    case False
    have n: "\<not> x < 2 ^ 52 * q" using Suc.prems(1) by simp
    show ?thesis using False n Suc.prems(1,4) by (simp add: quantum.simps[of "Suc n" x q e])
  qed
qed

lemma quantum_range:
  assumes "1 / 2 ^ 33 \<le> x" and "x < 2 ^ 65"
  shows "case quantum 2200 x 1 0 of (q', e') \<Rightarrow>
           2 ^ 52 * q' \<le> x \<and> x < 2 ^ 53 * q' \<and> 0 < q' \<and> e' \<le> 12"
proof (cases "x < 2 ^ 53")
  case True
  have "(2 :: real) ^ 52 * 1 / 2 ^ 85 = 1 / 2 ^ 33" by simp
  then have 1: "2 ^ 52 * 1 / 2 ^ 85 \<le> x" using assms(1) by simp
  have "case quantum 2200 x 1 0 of (q', e') \<Rightarrow>
           2 ^ 52 * q' \<le> x \<and> x < 2 ^ 53 * q' \<and> 0 < q' \<and> e' \<le> 0"
    by (rule quantum_down[where m = 85, OF 1]) (use True in simp_all)
  then show ?thesis by auto
next
  case False
  have 1: "2 ^ 52 * 1 \<le> x" using False by simp
  have 2: "x < 2 ^ 53 * 1 * 2 ^ 12" using assms(2) by simp
  have "case quantum 2200 x 1 0 of (q', e') \<Rightarrow>
           2 ^ 52 * q' \<le> x \<and> x < 2 ^ 53 * q' \<and> 0 < q' \<and> e' \<le> 0 + int 12"
    by (rule quantum_up[OF 1 2]) simp_all
  then show ?thesis by auto
qed

lemma to_double_error:
  assumes "1 / 2 ^ 33 \<le> x" and "x < 2 ^ 65"
  shows "\<exists>y. to_double x = Num y \<and> \<bar>y - x\<bar> \<le> x / 2 ^ 53"
proof -
  have x: "0 < x"
  proof -
    have "(0 :: real) < 1 / 2 ^ 33" by simp
    then show ?thesis using assms(1) by linarith
  qed
  obtain q e where qe: "quantum 2200 x 1 0 = (q, e)" by (cases "quantum 2200 x 1 0")
  have r: "2 ^ 52 * q \<le> x" "x < 2 ^ 53 * q" "0 < q" "e \<le> 12"
    using quantum_range[OF assms] qe by simp_all
  let ?m = "rne (x / q)"
  have d: "to_double x = Num (of_int ?m * q)"
    using x r(4) qe by (simp add: to_double_def)
  have "\<bar>of_int ?m - x / q\<bar> \<le> 1 / 2" by (rule rne_error)
  then have "\<bar>of_int ?m - x / q\<bar> * q \<le> 1 / 2 * q"
    using r(3) by (simp add: mult_right_mono)
  moreover have "\<bar>of_int ?m - x / q\<bar> * q = \<bar>of_int ?m * q - x\<bar>"
  proof -
    have "\<bar>of_int ?m - x / q\<bar> * q = \<bar>(of_int ?m - x / q) * q\<bar>"
      using r(3) by (simp add: abs_mult)
    also have "(of_int ?m - x / q) * q = of_int ?m * q - x"
      using r(3) by (simp add: field_simps)
    finally show ?thesis .
  qed
  ultimately have "\<bar>of_int ?m * q - x\<bar> \<le> q / 2" by simp
  moreover have "q / 2 \<le> x / 2 ^ 53" using r(1) by simp
  ultimately have "\<bar>of_int ?m * q - x\<bar> \<le> x / 2 ^ 53" by linarith
  then show ?thesis using d by blast
qed


lemma word_dim:
  fixes w :: "32 word"
  assumes "0 < w"
  shows "1 \<le> real (unat w)" and "real (unat w) < 2 ^ 32"
proof -
  have "0 < unat w" using assms by (simp add: word_less_nat_alt)
  then have "1 \<le> unat w" by simp
  then have "real 1 \<le> real (unat w)" unfolding of_nat_le_iff .
  then show "1 \<le> real (unat w)" by simp
  have "unat w < 2 ^ LENGTH(32)" by (rule unsigned_less)
  then have "unat w < 2 ^ 32" by simp
  then have "real (unat w) < real (2 ^ 32)" unfolding of_nat_less_iff .
  then show "real (unat w) < 2 ^ 32" by simp
qed

lemma quotient_bounds:
  fixes a b c d :: real
  assumes "c \<le> a" and "b \<le> d" and "0 < b" and "0 < c"
  shows "c / d \<le> a / b"
  using assms by (intro frac_le) simp_all

lemma quotient_less:
  fixes a b c d :: real
  assumes "a < c" and "d \<le> b" and "0 < d" and "0 \<le> a"
  shows "a / b < c / d"
  using assms by (intro frac_less) simp_all

lemma half_ulp:
  fixes x y :: real
  assumes "\<bar>y - x\<bar> \<le> x / 2 ^ 53" and "0 < x"
  shows "x / 2 \<le> y" and "y \<le> 2 * x"
proof -
  have "x / 2 ^ 53 \<le> x / 2" using assms(2) by (intro divide_left_mono) simp_all
  then show "x / 2 \<le> y" "y \<le> 2 * x" using assms by linarith+
qed

lemma ratio_range:
  fixes a b :: real
  assumes "1 \<le> a" and "a < 2 ^ 32" and "1 \<le> b" and "b < 2 ^ 32"
  shows "\<exists>\<rho>. to_double (a / b) = Num \<rho> \<and> 1 / 2 ^ 33 \<le> \<rho> \<and> \<rho> < 2 ^ 33 \<and>
           \<bar>\<rho> - a / b\<bar> \<le> (a / b) / 2 ^ 53"
proof -
  define x where "x = a / b"
  have lo: "1 / 2 ^ 32 \<le> x" unfolding x_def
    using assms by (intro quotient_bounds) simp_all
  have "a / b < 2 ^ 32 / 1"
    using assms by (intro quotient_less) simp_all
  then have hi: "x < 2 ^ 32" by (simp add: x_def)
  have "(1 :: real) / 2 ^ 33 \<le> 1 / 2 ^ 32" by simp
  then have lo': "1 / 2 ^ 33 \<le> x" using lo by linarith
  have "(2 :: real) ^ 32 \<le> 2 ^ 65" by simp
  then have hi': "x < 2 ^ 65" using hi by linarith
  obtain y where y: "to_double x = Num y" "\<bar>y - x\<bar> \<le> x / 2 ^ 53"
    using to_double_error[OF lo' hi'] by blast
  have "(0 :: real) < 1 / 2 ^ 32" by simp
  then have p: "0 < x" using lo by linarith
  note b = half_ulp[OF y(2) p]
  have "1 / 2 ^ 33 \<le> x / 2" using lo by simp
  then have 1: "1 / 2 ^ 33 \<le> y" using b(1) by (rule order_trans)
  have "2 * x < 2 ^ 33" using hi by simp
  then have 2: "y < 2 ^ 33" using b(2) by (rule le_less_trans[rotated])
  show ?thesis using y 1 2 unfolding x_def by blast
qed

lemma mul_ratio:
  fixes H \<rho> :: real
  assumes "1 \<le> H" and "H < 2 ^ 32" and "1 / 2 ^ 33 \<le> \<rho>" and "\<rho> < 2 ^ 33"
  shows "\<exists>w. to_double (H * \<rho>) = Num w \<and> \<bar>w / H - \<rho>\<bar> \<le> \<rho> / 2 ^ 52"
proof -
  have "(0 :: real) < 1 / 2 ^ 33" by simp
  then have r: "0 < \<rho>" using assms(3) by linarith
  have h: "0 < H" using assms(1) by simp
  define x where "x = H * \<rho>"
  have "1 * \<rho> \<le> H * \<rho>" using assms(1) r by (intro mult_right_mono) simp_all
  then have "\<rho> \<le> x" by (simp add: x_def)
  then have lo: "1 / 2 ^ 33 \<le> x" using assms(3) by linarith
  have "H * \<rho> < 2 ^ 32 * 2 ^ 33" using assms(2,4) h r by (intro mult_strict_mono) simp_all
  then have hi: "x < 2 ^ 65" by (simp add: x_def)
  obtain w where w: "to_double x = Num w" "\<bar>w - x\<bar> \<le> x / 2 ^ 53"
    using to_double_error[OF lo hi] by blast
  have e: "w / H - \<rho> = (w - x) / H" using h by (simp add: x_def field_simps)
  have "\<bar>w / H - \<rho>\<bar> = \<bar>w - x\<bar> / H" unfolding e using h by (simp add: abs_divide)
  also have "\<dots> \<le> (x / 2 ^ 53) / H" using w(2) h by (intro divide_right_mono) simp_all
  also have "(x / 2 ^ 53) / H = \<rho> / 2 ^ 53" using h by (simp add: x_def)
  also have "\<rho> / 2 ^ 53 \<le> \<rho> / 2 ^ 52" using r by (intro divide_left_mono) simp_all
  finally show ?thesis using w(1) unfolding x_def by blast
qed

lemma div_ratio:
  fixes W \<rho> :: real
  assumes "1 \<le> W" and "W < 2 ^ 32" and "1 / 2 ^ 33 \<le> \<rho>" and "\<rho> < 2 ^ 33"
  shows "\<exists>h. to_double (W / \<rho>) = Num h \<and> 0 < h \<and> \<bar>W / h - \<rho>\<bar> \<le> \<rho> / 2 ^ 52"
proof -
  have "(0 :: real) < 1 / 2 ^ 33" by simp
  then have r: "0 < \<rho>" using assms(3) by linarith
  have w: "0 < W" using assms(1) by simp
  define t where "t = W / \<rho>"
  have t: "0 < t" using r w by (simp add: t_def)
  have lo: "1 / 2 ^ 33 \<le> t" unfolding t_def
    using assms r by (intro quotient_bounds) simp_all
  have "W / \<rho> < 2 ^ 32 / (1 / 2 ^ 33)"
    using assms by (intro quotient_less) simp_all
  then have hi: "t < 2 ^ 65" by (simp add: t_def)
  obtain h where h: "to_double t = Num h" "\<bar>h - t\<bar> \<le> t / 2 ^ 53"
    using to_double_error[OF lo hi] by blast
  note b = half_ulp[OF h(2) t]
  have hp: "0 < h" using b(1) t by linarith
  have e: "W = \<rho> * t" using r by (simp add: t_def)
  have "W / h - \<rho> = \<rho> * t / h - \<rho> * h / h" using hp by (simp add: e)
  also have "\<dots> = \<rho> * (t - h) / h" by (simp add: field_simps)
  finally have "\<bar>W / h - \<rho>\<bar> = \<bar>\<rho> * (t - h) / h\<bar>" by simp
  also have "\<dots> = \<rho> * \<bar>t - h\<bar> / h"
    using r hp by (simp add: abs_mult abs_divide)
  also have "\<dots> \<le> \<rho> * (t / 2 ^ 53) / h"
  proof -
    have "\<bar>t - h\<bar> \<le> t / 2 ^ 53" using h(2) by (simp add: abs_minus_commute)
    then have "\<rho> * \<bar>t - h\<bar> \<le> \<rho> * (t / 2 ^ 53)" using r by (intro mult_left_mono) simp_all
    then show ?thesis using hp by (intro divide_right_mono) simp_all
  qed
  also have "\<dots> \<le> \<rho> * (h / 2 ^ 52) / h"
  proof -
    have "t / 2 ^ 53 = (t / 2) / 2 ^ 52" by simp
    also have "\<dots> \<le> h / 2 ^ 52" using b(1) by (intro divide_right_mono) simp_all
    finally have "\<rho> * (t / 2 ^ 53) \<le> \<rho> * (h / 2 ^ 52)" using r by (intro mult_left_mono) simp_all
    then show ?thesis using hp by (intro divide_right_mono) simp_all
  qed
  also have "\<rho> * (h / 2 ^ 52) / h = \<rho> / 2 ^ 52" using hp by simp
  finally show ?thesis using h(1) hp unfolding t_def by blast
qed


subsection \<open>The canvas: the claim\<close>

lemma resizeCanvas_keep_aspect_value:
  assumes "\<not> isCocoonJS v" and "fillMode v = FILLMODE_KEEP_ASPECT"
  shows "fst (resizeCanvas width height v) =
     (if js_gt (backing_ratio v) (window_ratio v)
      then (Some (js_long (innerWidth v)), Some (js_div (js_long (innerWidth v)) (backing_ratio v)))
      else (Some (js_mul (js_long (innerHeight v)) (backing_ratio v)), Some (js_long (innerHeight v))))"
  using assms by (simp add: resizeCanvas_def Let_def split: prod.splits)

lemma ratio_of_dims:
  fixes a b :: "32 word"
  assumes "0 < a" and "0 < b"
  shows "\<exists>\<rho>. js_div (js_long a) (js_long b) = Num \<rho> \<and> 1 / 2 ^ 33 \<le> \<rho> \<and> \<rho> < 2 ^ 33"
proof -
  note a = word_dim[OF assms(1)]
  note b = word_dim[OF assms(2)]
  have n: "real (unat b) \<noteq> 0" using b(1) by linarith
  have "js_div (js_long a) (js_long b) = to_double (real (unat a) / real (unat b))"
    unfolding js_long_def using n by (simp del: of_nat_unat)
  then show ?thesis using ratio_range[OF a b] by auto
qed

text \<open>
  C8, as the code has it. In \<open>KeepAspect\<close> mode, outside CocoonJS, for a window of
  positive width and height, the limiting window dimension is returned as it is: the
  window width when the backing ratio \<open>r\<close> exceeds the ratio of the window, the window
  height otherwise. When the backing buffer has positive width and height, the other
  dimension is the double nearest to the window width divided by \<open>r\<close>, or to the window
  height times \<open>r\<close>, and the returned width divided by the returned height is \<open>r\<close> to
  within a relative error of \<open>2 ^ - 52\<close>. When the backing buffer has a zero dimension,
  the division of the returned width by the returned height gives \<open>r\<close> itself: \<open>0\<close>, an
  infinity, or \<open>NaN\<close> for a buffer of \<open>0 \<times> 0\<close>.
\<close>

theorem resizeCanvas_keep_aspect:
  assumes "\<not> isCocoonJS v" and "fillMode v = FILLMODE_KEEP_ASPECT"
    and "0 < innerWidth v" and "0 < innerHeight v"
  shows "(if js_gt (backing_ratio v) (window_ratio v)
          then fst (fst (resizeCanvas width height v)) = Some (Num (real (unat (innerWidth v))))
          else snd (fst (resizeCanvas width height v)) = Some (Num (real (unat (innerHeight v))))) \<and>
         (0 < canvas_width v \<and> 0 < canvas_height v \<longrightarrow>
            (\<exists>w h \<rho>. fst (resizeCanvas width height v) = (Some (Num w), Some (Num h)) \<and>
                backing_ratio v = Num \<rho> \<and> 0 < \<rho> \<and> 0 < h \<and>
                (if js_gt (backing_ratio v) (window_ratio v)
                 then Num h = to_double (real (unat (innerWidth v)) / \<rho>)
                 else Num w = to_double (real (unat (innerHeight v)) * \<rho>)) \<and>
                \<bar>w / h - \<rho>\<bar> \<le> \<rho> / 2 ^ 52)) \<and>
         (canvas_width v = 0 \<or> canvas_height v = 0 \<longrightarrow>
            returned_ratio (fst (resizeCanvas width height v)) = backing_ratio v)"
proof -
  let ?W = "real (unat (innerWidth v))"
  let ?H = "real (unat (innerHeight v))"
  note val = resizeCanvas_keep_aspect_value[OF assms(1,2), of width height]
  note W = word_dim[OF assms(3)]
  note H = word_dim[OF assms(4)]
  obtain \<omega> where win: "window_ratio v = Num \<omega>" "1 / 2 ^ 33 \<le> \<omega>"
    using ratio_of_dims[OF assms(3,4)] unfolding window_ratio_def by blast
  have "(0 :: real) < 1 / 2 ^ 33" by simp
  then have wpos: "0 < \<omega>" using win(2) by linarith
  have A: "if js_gt (backing_ratio v) (window_ratio v)
          then fst (fst (resizeCanvas width height v)) = Some (Num ?W)
          else snd (fst (resizeCanvas width height v)) = Some (Num ?H)"
    unfolding val by (simp add: js_long_def del: of_nat_unat)
  have B: "\<exists>w h \<rho>. fst (resizeCanvas width height v) = (Some (Num w), Some (Num h)) \<and>
                backing_ratio v = Num \<rho> \<and> 0 < \<rho> \<and> 0 < h \<and>
                (if js_gt (backing_ratio v) (window_ratio v)
                 then Num h = to_double (?W / \<rho>)
                 else Num w = to_double (?H * \<rho>)) \<and>
                \<bar>w / h - \<rho>\<bar> \<le> \<rho> / 2 ^ 52"
    if c: "0 < canvas_width v \<and> 0 < canvas_height v"
  proof -
    obtain \<rho> where r: "backing_ratio v = Num \<rho>" "1 / 2 ^ 33 \<le> \<rho>" "\<rho> < 2 ^ 33"
      using ratio_of_dims[of "canvas_width v" "canvas_height v"] c
      unfolding backing_ratio_def by blast
    have "(0 :: real) < 1 / 2 ^ 33" by simp
    then have rpos: "0 < \<rho>" using r(2) by linarith
    show ?thesis
    proof (cases "js_gt (backing_ratio v) (window_ratio v)")
      case True
      obtain h where h: "to_double (?W / \<rho>) = Num h" "0 < h" "\<bar>?W / h - \<rho>\<bar> \<le> \<rho> / 2 ^ 52"
        using div_ratio[OF W r(2,3)] by blast
      have "fst (resizeCanvas width height v) = (Some (Num ?W), Some (Num h))"
        unfolding val using True r(1) rpos h(1) by (simp add: js_long_def del: of_nat_unat)
      then show ?thesis using True r(1) rpos h by auto
    next
      case False
      obtain w where w: "to_double (?H * \<rho>) = Num w" "\<bar>w / ?H - \<rho>\<bar> \<le> \<rho> / 2 ^ 52"
        using mul_ratio[OF H r(2,3)] by blast
      have hp: "0 < ?H" using H(1) by linarith
      have "fst (resizeCanvas width height v) = (Some (Num w), Some (Num ?H))"
        unfolding val using False r(1) w(1) by (simp add: js_long_def del: of_nat_unat)
      then show ?thesis using False r(1) rpos w hp by auto
    qed
  qed
  have C: "returned_ratio (fst (resizeCanvas width height v)) = backing_ratio v"
    if c: "canvas_width v = 0 \<or> canvas_height v = 0"
  proof (cases "canvas_height v = 0")
    case True
    have wp: "0 < ?W" using W(1) by linarith
    have hp: "?H \<noteq> 0" using H(1) by linarith
    show ?thesis
    proof (cases "canvas_width v = 0")
      case z: True
      have r: "backing_ratio v = NaN"
        using True z by (simp add: backing_ratio_def js_long_def)
      show ?thesis unfolding val r win(1) by (simp add: js_long_def del: of_nat_unat)
    next
      case False
      then have "0 < canvas_width v" by (simp add: word_neq_0_conv)
      then have "0 < real (unat (canvas_width v))"
        using word_dim(1)[of "canvas_width v"] by linarith
      then have r: "backing_ratio v = PosInf"
        using True by (simp add: backing_ratio_def js_long_def del: of_nat_unat)
      show ?thesis unfolding val r win(1) using wp by (simp add: js_long_def del: of_nat_unat)
    qed
  next
    case False
    then have z: "canvas_width v = 0" using c by simp
    have "0 < canvas_height v" using False by (simp add: word_neq_0_conv)
    then have "real (unat (canvas_height v)) \<noteq> 0"
      using word_dim(1)[of "canvas_height v"] by linarith
    then have r: "backing_ratio v = Num 0"
      using z by (simp add: backing_ratio_def js_long_def to_double_def del: of_nat_unat)
    have hp: "?H \<noteq> 0" using H(1) by linarith
    show ?thesis unfolding val r win(1) using wpos hp
      by (simp add: js_long_def to_double_def del: of_nat_unat)
  qed
  show ?thesis using A B C by blast
qed

theorem resizeCanvas_keep_aspect_witness:
  "\<not> isCocoonJS (vp0 1920 1080 4 3) \<and> fillMode (vp0 1920 1080 4 3) = FILLMODE_KEEP_ASPECT \<and>
   0 < innerWidth (vp0 1920 1080 4 3) \<and> 0 < innerHeight (vp0 1920 1080 4 3) \<and>
   0 < canvas_width (vp0 1920 1080 4 3) \<and> 0 < canvas_height (vp0 1920 1080 4 3) \<and>
   (\<exists>w h \<rho>. fst (resizeCanvas None None (vp0 1920 1080 4 3)) = (Some (Num w), Some (Num h)) \<and>
       backing_ratio (vp0 1920 1080 4 3) = Num \<rho> \<and> 0 < \<rho> \<and> 0 < h \<and>
       \<bar>w / h - \<rho>\<bar> \<le> \<rho> / 2 ^ 52)"
proof -
  have h: "\<not> isCocoonJS (vp0 1920 1080 4 3)" "fillMode (vp0 1920 1080 4 3) = FILLMODE_KEEP_ASPECT"
    "0 < innerWidth (vp0 1920 1080 4 3)" "0 < innerHeight (vp0 1920 1080 4 3)"
    by (simp_all add: vp0_def)
  have c: "0 < canvas_width (vp0 1920 1080 4 3)" "0 < canvas_height (vp0 1920 1080 4 3)"
    by (simp_all add: vp0_def)
  have "\<exists>w h \<rho>. fst (resizeCanvas None None (vp0 1920 1080 4 3)) = (Some (Num w), Some (Num h)) \<and>
       backing_ratio (vp0 1920 1080 4 3) = Num \<rho> \<and> 0 < \<rho> \<and> 0 < h \<and>
       \<bar>w / h - \<rho>\<bar> \<le> \<rho> / 2 ^ 52"
    using resizeCanvas_keep_aspect[OF h, of None None] c by blast
  then show ?thesis using h c by blast
qed

lemmas canvas_eval =
  resizeCanvas_def vp0_def backing_ratio_def window_ratio_def vp_emit_def js_long_def
  to_double_def quantum.simps rne_def Let_def

lemma resizeCanvas_example:
  "fst (resizeCanvas None None (vp0 1920 1080 4 3)) = (Some (Num 1440), Some (Num 1080))"
  by (simp add: canvas_eval)

text \<open>
  C8 as stated fails in two ways. With a backing buffer of \<open>800 \<times> 600\<close> in a window of
  \<open>1200 \<times> 800\<close>, \<open>r\<close> is the double nearest to \<open>4/3\<close>, the returned height is \<open>800\<close> and the
  returned width is the double nearest to \<open>800 * r\<close>, which is \<open>1066.6666666666665\<close>; the
  returned width divided by the returned height is not \<open>r\<close>, neither exactly nor as the
  division of the language computes it. For a window of height \<open>0\<close> the window ratio is
  infinite, the height is taken from the window, and the returned pair is \<open>{0, 0}\<close>, whose
  ratio is \<open>NaN\<close>.
\<close>

theorem resizeCanvas_ratio_counterexample:
  "backing_ratio (vp0 1200 800 800 600) = Num (6004799503160661 / 2 ^ 52) \<and>
   fst (resizeCanvas None None (vp0 1200 800 800 600)) =
     (Some (Num (4691249611844266 / 2 ^ 42)), Some (Num 800)) \<and>
   (4691249611844266 / 2 ^ 42) / 800 < (6004799503160661 / 2 ^ 52 :: real) \<and>
   returned_ratio (fst (resizeCanvas None None (vp0 1200 800 800 600))) =
     Num (6004799503160660 / 2 ^ 52) \<and>
   fst (resizeCanvas None None (vp0 800 0 4 3)) = (Some (Num 0), Some (Num 0)) \<and>
   returned_ratio (fst (resizeCanvas None None (vp0 800 0 4 3))) = NaN \<and>
   backing_ratio (vp0 800 0 4 3) = Num (6004799503160661 / 2 ^ 52)"
  by (simp add: canvas_eval)

subsection \<open>Fullscreen: the claim\<close>

lemma fullscreen_success_is_one_shot:
  "fullscreenchange (dispatch_fullscreenchange (enableFullscreen True True new_document)) = [] \<and>
   fs_calls (dispatch_fullscreenchange (dispatch_fullscreenchange
     (enableFullscreen True True new_document))) = [RequestFullscreen, Success_callback 0]"
  by code_simp

text \<open>
  C9 fails on the code: a listener removes only itself, and only when it fires. After
  two calls of \<open>enableFullscreen\<close> with both callbacks, each followed by the change event
  and by \<open>disableFullscreen\<close> with its change event, both error listeners are still
  registered. And a success listener left by a request that failed fires at the next
  change event, together with the one of the request that succeeded.
\<close>

theorem fullscreen_listener_leak:
  "fullscreenerror
     (dispatch_fullscreenchange (disableFullscreen False
       (dispatch_fullscreenchange (enableFullscreen True True
         (dispatch_fullscreenchange (disableFullscreen False
           (dispatch_fullscreenchange (enableFullscreen True True new_document)))))))) =
     [Enable_e 0, Enable_e 2] \<and>
   fs_calls
     (dispatch_fullscreenchange (enableFullscreen True True
       (dispatch_fullscreenerror (enableFullscreen True True new_document)))) =
     [RequestFullscreen, Error_callback 0, RequestFullscreen, Success_callback 0,
      Success_callback 1]"
  by code_simp

subsection \<open>Bundles: the claim\<close>

lemma loadFromToc_inherited_name:
  "loadFromToc (\<lambda>g. []) ''constructor'' True True True
     \<lparr>app_content = Some \<lparr>toc = Some [(''level1'', \<lparr>packs = Some [''guid'']\<rparr>)]\<rparr>,
      librariesLoaded = True\<rparr> = ([], Inl (PropertyOfUndefined ''0'')) \<and>
   loadFromToc (\<lambda>g. []) ''level2'' True True True
     \<lparr>app_content = Some \<lparr>toc = Some [(''level1'', \<lparr>packs = Some [''guid'']\<rparr>)]\<rparr>,
      librariesLoaded = True\<rparr> = ([], Inl (PropertyOfUndefined ''packs'')) \<and>
   loadFromToc (\<lambda>g. []) ''level1'' True True True
     \<lparr>app_content = Some \<lparr>toc = Some [(''level1'', \<lparr>packs = Some [''guid'']\<rparr>)]\<rparr>,
      librariesLoaded = True\<rparr> = ([Loader_on_progress, SetTimeout_onLoaded], Inr ())"
  by (simp add: loadFromToc_def toc_get_def object_prototype_names_def)

text \<open>
  C10. Without a content table, \<open>loadFromToc\<close> called with an error callback invokes it
  with \<open>No content\<close>, goes on, and ends with the exception of reading \<open>toc\<close> of the absent
  table; called without an error callback it ends at once with the exception of calling
  what is not a function, before the callbacks are given their defaults.
\<close>

theorem loadFromToc_no_content:
  "app_content a = None \<Longrightarrow>
   loadFromToc assets_list name success True progress a =
     ([ErrorCallback ''No content''], Inl (PropertyOfUndefined ''toc'')) \<and>
   loadFromToc assets_list name success False progress a = ([], Inl (NotAFunction ''error''))"
  by (simp add: loadFromToc_def)

theorem loadFromToc_no_content_witness:
  "app_content \<lparr>app_content = None, librariesLoaded = False\<rparr> = None \<and>
   loadFromToc (\<lambda>g. []) ''level1'' True True True \<lparr>app_content = None, librariesLoaded = False\<rparr> =
     ([ErrorCallback ''No content''], Inl (PropertyOfUndefined ''toc'')) \<and>
   loadFromToc (\<lambda>g. []) ''level1'' True False True \<lparr>app_content = None, librariesLoaded = False\<rparr> =
     ([], Inl (NotAFunction ''error''))"
  using loadFromToc_no_content[of "\<lparr>app_content = None, librariesLoaded = False\<rparr>" "\<lambda>g. []" "''level1''" True True]
  by simp

end
